theory Spec2Isabelle
  imports Main "HOL-Library.Sublist"
begin

section \<open>Path strings\<close>

text \<open>
  Paths are Python strings; a string is a list of characters. The scripts run on POSIX,
  where the separator is the slash.
\<close>

definition sep :: char where
  "sep = CHR ''/''"

text \<open>
  \<^verbatim>\<open>s.split('/')\<close>: the pieces between separators; the empty string gives one empty
  piece, and the result is never empty.
\<close>

fun split_sep :: "string \<Rightarrow> string list" where
  "split_sep [] = [[]]"
| "split_sep (c # cs) =
     (if c = sep then [] # split_sep cs
      else (case split_sep cs of [] \<Rightarrow> [[c]] | w # ws \<Rightarrow> (c # w) # ws))"

text \<open>
  \<^verbatim>\<open>Path(path_str).parts\<close> for a POSIX path: a leading slash is the root part (two
  leading slashes, and only exactly two, are the root \<^verbatim>\<open>//\<close>); the rest is split at
  the separator, and empty pieces and the piece \<^verbatim>\<open>.\<close> are dropped.
\<close>

definition path_root :: "string \<Rightarrow> string" where
  "path_root p =
     (if take 1 p = ''/'' then
        (if take 2 p = ''//'' \<and> take 3 p \<noteq> ''///'' then ''//'' else ''/'')
      else [])"

definition parts :: "string \<Rightarrow> string list" where
  "parts p =
     (let root = path_root p;
          rel = drop (length root) p;
          parsed = filter (\<lambda>x. x \<noteq> [] \<and> x \<noteq> ''.'') (split_sep rel)
      in if root \<noteq> [] then root # parsed else parsed)"

text \<open>\<^verbatim>\<open>pattern in part\<close> on strings: \<open>pattern\<close> occurs in \<open>part\<close> as a contiguous run.\<close>

fun str_in :: "string \<Rightarrow> string \<Rightarrow> bool" where
  "str_in pattern [] = (pattern = [])"
| "str_in pattern (c # cs) = (prefix pattern (c # cs) \<or> str_in pattern cs)"

text \<open>\<^verbatim>\<open>part.startswith(p)\<close>.\<close>

definition startswith :: "string \<Rightarrow> string \<Rightarrow> bool" where
  "startswith part p = prefix p part"

section \<open>The exclusion predicate of create\_deployment\_zip.py\<close>

text \<open>The set literal \<^verbatim>\<open>exclude_patterns\<close>; \<^verbatim>\<open>any\<close> does not depend on its order.\<close>

definition exclude_patterns :: "string list" where
  "exclude_patterns =
     [''node_modules'', ''.git'', ''dist'', ''.env'', ''.DS_Store'', ''__pycache__'',
      ''*.log'', ''*.tmp'', ''.vscode'', ''.idea'']"

definition allowed_dot_names :: "string list" where
  "allowed_dot_names = [''.ebextensions'', ''.platform'']"

text \<open>The body of the \<^verbatim>\<open>for part in path_parts\<close> loop, for one part: does it return True?\<close>

definition part_excluded :: "string \<Rightarrow> bool" where
  "part_excluded part =
     (if list_ex (\<lambda>pattern. str_in pattern part) exclude_patterns then True
      else if startswith part ''.'' \<and> part \<notin> set allowed_dot_names then True
      else False)"

fun exclude_loop :: "string list \<Rightarrow> bool" where
  "exclude_loop [] = False"
| "exclude_loop (part # rest) = (if part_excluded part then True else exclude_loop rest)"

definition should_exclude :: "string \<Rightarrow> bool" where
  "should_exclude path_str = exclude_loop (parts path_str)"

section \<open>os.path: join and relpath\<close>

text \<open>\<^verbatim>\<open>os.path.join(a, b)\<close> of posixpath.\<close>

definition join :: "string \<Rightarrow> string \<Rightarrow> string" where
  "join a b =
     (if startswith b ''/'' then b
      else if a = [] \<or> last a = sep then a @ b
      else a @ ''/'' @ b)"

text \<open>\<^verbatim>\<open>os.path.join(*rel_list)\<close>: the components joined from the left.\<close>

fun join_list :: "string list \<Rightarrow> string" where
  "join_list [] = []"
| "join_list [a] = a"
| "join_list (a # b # bs) = join_list (join a b # bs)"

text \<open>The non-empty pieces of a path: \<^verbatim>\<open>[x for x in p.split('/') if x]\<close>.\<close>

definition components :: "string \<Rightarrow> string list" where
  "components p = filter (\<lambda>x. x \<noteq> []) (split_sep p)"

fun commonprefix :: "string list \<Rightarrow> string list \<Rightarrow> string list" where
  "commonprefix (x # xs) (y # ys) = (if x = y then x # commonprefix xs ys else [])"
| "commonprefix _ _ = []"

text \<open>
  \<^verbatim>\<open>os.path.relpath(path, start)\<close>. The library first makes both arguments absolute
  and normal (\<^verbatim>\<open>abspath\<close>). Both scripts pass paths relative to the one working
  directory, built by \<^verbatim>\<open>os.walk\<close> from a plain directory name, so they have no
  \<^verbatim>\<open>.\<close> or \<^verbatim>\<open>..\<close> component: the working directory is then a common prefix of the two
  component lists and drops out, and the normalisation changes nothing. The model works
  on the components of the relative paths.
\<close>

definition relpath :: "string \<Rightarrow> string \<Rightarrow> string" where
  "relpath path start =
     (let start_list = components start;
          path_list = components path;
          i = length (commonprefix start_list path_list);
          rel_list = replicate (length start_list - i) ''..'' @ drop i path_list
      in if rel_list = [] then ''.'' else join_list rel_list)"

section \<open>The file system of the working directory\<close>

text \<open>
  A directory is the list of its entries, in the order \<^verbatim>\<open>os.scandir\<close> reports them; a
  file is its content. Symbolic links, permissions and times are not modelled. The
  working directory of a script is a listing.
\<close>

datatype node = File string | Dir "(string \<times> node) list"

type_synonym listing = "(string \<times> node) list"

text \<open>An archive under construction: the entries written so far, name and content.\<close>

type_synonym archive = "(string \<times> string) list"

text \<open>The exceptions the file operations of the scripts raise on a file system like this.\<close>

datatype error = FileNotFoundError | IsADirectoryError | NotADirectoryError | FileExistsError

fun is_dir :: "node \<Rightarrow> bool" where
  "is_dir (Dir es) = True"
| "is_dir (File c) = False"

text \<open>\<^verbatim>\<open>os.path.exists(name)\<close>, \<^verbatim>\<open>Path.exists()\<close>, for a name in the working directory.\<close>

definition path_exists :: "listing \<Rightarrow> string \<Rightarrow> bool" where
  "path_exists cwd name = (map_of cwd name \<noteq> None)"

definition delete_entry :: "string \<Rightarrow> listing \<Rightarrow> listing" where
  "delete_entry name cwd = filter (\<lambda>(n, x). n \<noteq> name) cwd"

text \<open>Creating or replacing the entry called \<open>name\<close>.\<close>

definition put_entry :: "string \<Rightarrow> node \<Rightarrow> listing \<Rightarrow> listing" where
  "put_entry name x cwd = delete_entry name cwd @ [(name, x)]"

text \<open>\<^verbatim>\<open>os.remove(name)\<close> and \<^verbatim>\<open>Path.unlink()\<close>: they delete a file and raise on anything else.\<close>

definition os_remove :: "string \<Rightarrow> listing \<Rightarrow> error + listing" where
  "os_remove name cwd =
     (case map_of cwd name of
        None \<Rightarrow> Inl FileNotFoundError
      | Some (Dir es) \<Rightarrow> Inl IsADirectoryError
      | Some (File c) \<Rightarrow> Inr (delete_entry name cwd))"

text \<open>\<^verbatim>\<open>shutil.rmtree(name)\<close>: it deletes a directory with all below it.\<close>

definition rmtree :: "string \<Rightarrow> listing \<Rightarrow> error + listing" where
  "rmtree name cwd =
     (case map_of cwd name of
        None \<Rightarrow> Inl FileNotFoundError
      | Some (File c) \<Rightarrow> Inl NotADirectoryError
      | Some (Dir es) \<Rightarrow> Inr (delete_entry name cwd))"

text \<open>
  \<^verbatim>\<open>os.walk(top)\<close>, top-down: for each directory visited it yields the directory's path,
  the names of its subdirectories and its files, then descends into the subdirectories
  left in the yielded list. The caller may prune that list in place before the descent;
  \<open>keep\<close> is the caller's test, applied to the directory's path and the subdirectory's name.
  A top that cannot be listed (it is missing, or a file) yields nothing: \<^verbatim>\<open>os.walk\<close> ignores
  the error of \<^verbatim>\<open>scandir\<close>. The files come with their content, which
  \<^verbatim>\<open>zipf.write(file_path, ...)\<close> reads from the same file system.
\<close>

fun os_walk :: "(string \<Rightarrow> string \<Rightarrow> bool) \<Rightarrow> string \<Rightarrow> node
    \<Rightarrow> (string \<times> string list \<times> (string \<times> string) list) list" where
  "os_walk keep dirpath (File c) = []"
| "os_walk keep dirpath (Dir es) =
     (let dirs = [d. (d, n) \<leftarrow> es, is_dir n, keep dirpath d];
          nondirs = [(f, c). (f, File c) \<leftarrow> es]
      in (dirpath, dirs, nondirs) #
         concat (map (\<lambda>(d, n).
                   if is_dir n \<and> keep dirpath d then os_walk keep (join dirpath d) n else [])
                 es))"

definition walk_from :: "(string \<Rightarrow> string \<Rightarrow> bool) \<Rightarrow> string \<Rightarrow> listing
    \<Rightarrow> (string \<times> string list \<times> (string \<times> string) list) list" where
  "walk_from keep name cwd =
     (case map_of cwd name of None \<Rightarrow> [] | Some x \<Rightarrow> os_walk keep name x)"

section \<open>What the scripts print\<close>

text \<open>
  The output of a script is the list of the strings it passes to \<^verbatim>\<open>print\<close>. A character
  is a byte here, so the four emoji of the messages are their UTF-8 bytes.
\<close>

definition emoji_check :: string where
  "emoji_check = [CHR 0xE2, CHR 0x9C, CHR 0x85]"

definition emoji_package :: string where
  "emoji_package = [CHR 0xF0, CHR 0x9F, CHR 0x93, CHR 0xA6]"

definition emoji_rocket :: string where
  "emoji_rocket = [CHR 0xF0, CHR 0x9F, CHR 0x9A, CHR 0x80]"

definition emoji_target :: string where
  "emoji_target = [CHR 0xF0, CHR 0x9F, CHR 0x8E, CHR 0xAF]"

definition digit :: "nat \<Rightarrow> char" where
  "digit d = ''0123456789'' ! d"

fun show_nat :: "nat \<Rightarrow> string" where
  "show_nat n = (if n < 10 then [digit n] else show_nat (n div 10) @ [digit (n mod 10)])"

declare show_nat.simps [simp del]

text \<open>
  \<^verbatim>\<open>f"{size / (1024 * 1024):.1f}"\<close>. For a size below \<open>2 ^ 53\<close> bytes the quotient by
  \<open>2 ^ 20\<close> is an exact double, and the format rounds that exact value to one decimal,
  a tie going to the even digit. So the number of tenths printed is computed on integers.
\<close>

definition tenths_mb :: "nat \<Rightarrow> nat" where
  "tenths_mb size_bytes =
     (let q = (10 * size_bytes) div 1048576;
          r = (10 * size_bytes) mod 1048576
      in if r < 524288 then q
         else if r > 524288 then q + 1
         else if even q then q else q + 1)"

definition fmt_mb :: "nat \<Rightarrow> string" where
  "fmt_mb size_bytes =
     (let t = tenths_mb size_bytes in show_nat (t div 10) @ ''.'' @ show_nat (t mod 10))"

section \<open>Archive Builder B: create\_deployment\_zip.py\<close>

definition source_dir :: string where
  "source_dir = ''clean-aws-deploy''"

definition zip_path :: string where
  "zip_path = ''kgc-healthcare-BUILD-COMPLETE.zip''"

text \<open>\<^verbatim>\<open>if zip_path.exists(): zip_path.unlink()\<close>.\<close>

definition unlink_existing :: "listing \<Rightarrow> error + listing" where
  "unlink_existing cwd =
     (if path_exists cwd zip_path then os_remove zip_path cwd else Inr cwd)"

text \<open>
  \<^verbatim>\<open>dirs[:] = [d for d in dirs if not should_exclude(os.path.join(root, d))]\<close>: the test
  that keeps a subdirectory in the walk.
\<close>

definition keep_dir :: "string \<Rightarrow> string \<Rightarrow> bool" where
  "keep_dir root_path d = (\<not> should_exclude (join root_path d))"

text \<open>
  The loop \<^verbatim>\<open>for file in files\<close>: the entries it writes for one directory. The name
  of an entry is \<open>arcname\<close> as \<^verbatim>\<open>relpath\<close> returns it: \<^verbatim>\<open>zipfile\<close> would only normalise
  it and strip leading separators, and a relative path below the staging root has
  nothing to normalise.
\<close>

definition add_files :: "string \<Rightarrow> (string \<times> string) list \<Rightarrow> archive" where
  "add_files root_path files =
     concat (map (\<lambda>(file, c).
        let file_path = join root_path file
        in if \<not> should_exclude file_path then [(relpath file_path source_dir, c)] else [])
      files)"

text \<open>The loop over \<^verbatim>\<open>os.walk(source_dir)\<close>: all entries written, in order.\<close>

definition deployment_entries :: "listing \<Rightarrow> archive" where
  "deployment_entries cwd =
     concat (map (\<lambda>(root_path, dirs, files). add_files root_path files)
       (walk_from keep_dir source_dir cwd))"

text \<open>The three messages after the archive is closed; \<open>st_size\<close> is its size in bytes.\<close>

definition summary_lines :: "nat \<Rightarrow> string list" where
  "summary_lines st_size =
     [[CHR 0x0A] @ emoji_check @ '' Deployment package created: '' @ zip_path,
      emoji_package @ '' Size: '' @ fmt_mb st_size @ '' MB'',
      emoji_rocket @ '' Ready for AWS Elastic Beanstalk deployment'']"

text \<open>
  The script. \<open>deflate\<close> is the byte encoding of an archive by \<^verbatim>\<open>zipfile\<close>, which is not
  part of the repository: the archive file holds \<open>deflate entries\<close>, and its size is the
  length of that. Opening the archive for writing creates it empty before the walk. The
  result is the working directory afterwards and the output, or the exception raised.
\<close>

definition create_deployment_zip :: "(archive \<Rightarrow> string) \<Rightarrow> listing
    \<Rightarrow> error + (listing \<times> string list)" where
  "create_deployment_zip deflate cwd =
     (case unlink_existing cwd of
        Inl e \<Rightarrow> Inl e
      | Inr cwd1 \<Rightarrow>
          (let cwd2 = put_entry zip_path (File []) cwd1;
               entries = deployment_entries cwd2;
               added = map (\<lambda>(arcname, c). ''Added: '' @ arcname) entries;
               cwd3 = put_entry zip_path (File (deflate entries)) cwd2;
               st_size = length (deflate entries)
           in Inr (cwd3, added @ summary_lines st_size)))"

section \<open>Archive Builder A: create\_aws\_zip.py\<close>

definition aws_zip :: string where
  "aws_zip = ''keep-going-care-aws-deployment.zip''"

definition aws_staging :: string where
  "aws_staging = ''aws-clean-deployment''"

text \<open>The two guarded deletions under \<^verbatim>\<open># Remove existing files\<close>.\<close>

definition remove_existing :: "listing \<Rightarrow> error + listing" where
  "remove_existing cwd =
     (case (if path_exists cwd aws_zip then os_remove aws_zip cwd else Inr cwd) of
        Inl e \<Rightarrow> Inl e
      | Inr cwd1 \<Rightarrow>
          (if path_exists cwd1 aws_staging then rmtree aws_staging cwd1 else Inr cwd1))"

text \<open>\<^verbatim>\<open>os.makedirs(name, exist_ok=True)\<close>.\<close>

definition makedirs :: "string \<Rightarrow> listing \<Rightarrow> error + listing" where
  "makedirs name cwd =
     (case map_of cwd name of
        None \<Rightarrow> Inr (put_entry name (Dir []) cwd)
      | Some (Dir es) \<Rightarrow> Inr cwd
      | Some (File c) \<Rightarrow> Inl FileExistsError)"

text \<open>Writing the entry \<^verbatim>\<open>aws-clean-deployment/<name>\<close>.\<close>

definition staging_put :: "string \<Rightarrow> node \<Rightarrow> listing \<Rightarrow> error + listing" where
  "staging_put name x cwd =
     (case map_of cwd aws_staging of
        None \<Rightarrow> Inl FileNotFoundError
      | Some (File c) \<Rightarrow> Inl NotADirectoryError
      | Some (Dir st) \<Rightarrow> Inr (put_entry aws_staging (Dir (put_entry name x st)) cwd))"

definition staged :: "listing \<Rightarrow> string \<Rightarrow> bool" where
  "staged cwd name =
     (case map_of cwd aws_staging of Some (Dir st) \<Rightarrow> path_exists st name | _ \<Rightarrow> False)"

text \<open>
  \<^verbatim>\<open>shutil.copytree(name, f'aws-clean-deployment/{name}')\<close>: the source must be a
  directory and the destination must not exist.
\<close>

definition copytree :: "string \<Rightarrow> listing \<Rightarrow> error + listing" where
  "copytree name cwd =
     (case map_of cwd name of
        None \<Rightarrow> Inl FileNotFoundError
      | Some (File c) \<Rightarrow> Inl NotADirectoryError
      | Some (Dir es) \<Rightarrow>
          (if staged cwd name then Inl FileExistsError else staging_put name (Dir es) cwd))"

text \<open>\<^verbatim>\<open>shutil.copy2(name, f'aws-clean-deployment/{name}')\<close>: the source must be a file.\<close>

definition copy2 :: "string \<Rightarrow> listing \<Rightarrow> error + listing" where
  "copy2 name cwd =
     (case map_of cwd name of
        None \<Rightarrow> Inl FileNotFoundError
      | Some (Dir es) \<Rightarrow> Inl IsADirectoryError
      | Some (File c) \<Rightarrow> staging_put name (File c) cwd)"

definition essential_dirs :: "string list" where
  "essential_dirs = [''client'', ''server'', ''shared'', ''public'']"

text \<open>The loop \<^verbatim>\<open>for dir_name in ['client', 'server', 'shared', 'public']\<close>.\<close>

fun copy_dirs :: "string list \<Rightarrow> listing \<Rightarrow> error + listing" where
  "copy_dirs [] cwd = Inr cwd"
| "copy_dirs (dir_name # rest) cwd =
     (if path_exists cwd dir_name then
        (case copytree dir_name cwd of Inl e \<Rightarrow> Inl e | Inr cwd1 \<Rightarrow> copy_dirs rest cwd1)
      else copy_dirs rest cwd)"

definition files_to_copy :: "string list" where
  "files_to_copy =
     [''package.json'', ''package-lock.json'', ''vite.config.ts'',
      ''tailwind.config.ts'', ''postcss.config.js'', ''tsconfig.json'',
      ''drizzle.config.ts'', ''.env.example'']"

text \<open>The loop \<^verbatim>\<open>for file_name in files_to_copy\<close>.\<close>

fun copy_files :: "string list \<Rightarrow> listing \<Rightarrow> error + listing" where
  "copy_files [] cwd = Inr cwd"
| "copy_files (file_name # rest) cwd =
     (if path_exists cwd file_name then
        (case copy2 file_name cwd of Inl e \<Rightarrow> Inl e | Inr cwd1 \<Rightarrow> copy_files rest cwd1)
      else copy_files rest cwd)"

definition copy_platform :: "listing \<Rightarrow> error + listing" where
  "copy_platform cwd =
     (if path_exists cwd ''.platform'' then copytree ''.platform'' cwd else Inr cwd)"

definition procfile :: node where
  "procfile = File (''web: npm start'' @ [CHR 0x0A])"

text \<open>From \<^verbatim>\<open>os.makedirs\<close> to the writing of the Procfile.\<close>

definition assemble_staging :: "listing \<Rightarrow> error + listing" where
  "assemble_staging cwd =
     (case makedirs aws_staging cwd of
        Inl e \<Rightarrow> Inl e
      | Inr cwd1 \<Rightarrow>
     (case copy_dirs essential_dirs cwd1 of
        Inl e \<Rightarrow> Inl e
      | Inr cwd2 \<Rightarrow>
     (case copy_files files_to_copy cwd2 of
        Inl e \<Rightarrow> Inl e
      | Inr cwd3 \<Rightarrow>
     (case copy_platform cwd3 of
        Inl e \<Rightarrow> Inl e
      | Inr cwd4 \<Rightarrow> staging_put ''Procfile'' procfile cwd4))))"

text \<open>The loop over \<^verbatim>\<open>os.walk('aws-clean-deployment')\<close>: no pruning, no test of the files.\<close>

definition aws_entries :: "listing \<Rightarrow> archive" where
  "aws_entries cwd =
     concat (map (\<lambda>(root_path, dirs, files).
         map (\<lambda>(file, c). (relpath (join root_path file) aws_staging, c)) files)
       (walk_from (\<lambda>root_path d. True) aws_staging cwd))"

definition aws_lines :: "nat \<Rightarrow> string list" where
  "aws_lines size_bytes =
     [emoji_rocket @ '' Creating clean AWS deployment package with Python...'',
      emoji_check @ '' Clean AWS deployment package created: '' @ aws_zip,
      emoji_package @ '' Size: '' @ fmt_mb size_bytes @ '' MB'',
      emoji_target @ '' Ready for AWS Elastic Beanstalk deployment'']"

text \<open>
  The script. A run that raises is the exception alone; a run that ends is the working
  directory afterwards and all it printed.
\<close>

definition create_aws_zip :: "(archive \<Rightarrow> string) \<Rightarrow> listing
    \<Rightarrow> error + (listing \<times> string list)" where
  "create_aws_zip deflate cwd =
     (case remove_existing cwd of
        Inl e \<Rightarrow> Inl e
      | Inr cwd1 \<Rightarrow>
     (case assemble_staging cwd1 of
        Inl e \<Rightarrow> Inl e
      | Inr cwd2 \<Rightarrow>
          (let cwd3 = put_entry aws_zip (File []) cwd2;
               entries = aws_entries cwd3;
               cwd4 = put_entry aws_zip (File (deflate entries)) cwd3
           in (case rmtree aws_staging cwd4 of
                 Inl e \<Rightarrow> Inl e
               | Inr cwd5 \<Rightarrow> Inr (cwd5, aws_lines (length (deflate entries)))))))"

section \<open>Notions for stating the properties\<close>

text \<open>
  A name \<^verbatim>\<open>scandir\<close> can report: not empty, without a separator, and neither \<^verbatim>\<open>.\<close> nor
  \<^verbatim>\<open>..\<close>. A tree is valid when every name in it is.
\<close>

definition valid_name :: "string \<Rightarrow> bool" where
  "valid_name n = (n \<noteq> [] \<and> sep \<notin> set n \<and> n \<noteq> ''.'' \<and> n \<noteq> ''..'')"

fun valid_tree :: "node \<Rightarrow> bool" where
  "valid_tree (File c) = True"
| "valid_tree (Dir es) = list_all (\<lambda>(n, x). valid_name n \<and> valid_tree x) es"

text \<open>
  A name \<^verbatim>\<open>zipfile\<close> can always encode: one of ASCII characters only. Other bytes
  make a name only when they are valid UTF-8, and \<^verbatim>\<open>zipf.write\<close> raises on a name that
  is not; the model has no such exception, so the properties about the archives
  produced are stated for ASCII names.
\<close>

definition ascii_name :: "string \<Rightarrow> bool" where
  "ascii_name n = list_all (\<lambda>c. (of_char c :: nat) < 128) n"

fun ascii_tree :: "node \<Rightarrow> bool" where
  "ascii_tree (File c) = True"
| "ascii_tree (Dir es) = list_all (\<lambda>(n, x). ascii_name n \<and> ascii_tree x) es"

text \<open>The segments of a relative path written with separators between them.\<close>

fun slash_join :: "string list \<Rightarrow> string" where
  "slash_join [] = []"
| "slash_join [x] = x"
| "slash_join (x # y # ys) = x @ ''/'' @ slash_join (y # ys)"

text \<open>
  The files of a tree, each with the segments of its path from the root of the tree and
  its content: the files of the root first, then those of each subdirectory.
\<close>

fun files_of :: "node \<Rightarrow> (string list \<times> string) list" where
  "files_of (File c) = []"
| "files_of (Dir es) =
     [([f], c). (f, File c) \<leftarrow> es] @
     concat (map (\<lambda>(d, x). map (\<lambda>(segs, c). (d # segs, c)) (files_of x)) es)"

text \<open>The entries Builder B writes while walking the tree \<open>x\<close> found at \<open>dirpath\<close>.\<close>

definition walk_entries :: "string \<Rightarrow> node \<Rightarrow> archive" where
  "walk_entries dirpath x =
     concat (map (\<lambda>(root_path, dirs, files). add_files root_path files)
       (os_walk keep_dir dirpath x))"

text \<open>The entries Builder A writes while walking the tree \<open>x\<close> found at \<open>dirpath\<close>.\<close>

definition copy_entries :: "string \<Rightarrow> node \<Rightarrow> archive" where
  "copy_entries dirpath x =
     concat (map (\<lambda>(root_path, dirs, files).
         map (\<lambda>(file, c). (relpath (join root_path file) aws_staging, c)) files)
       (os_walk (\<lambda>root_path d. True) dirpath x))"

text \<open>
  For a file found below the directories \<open>ds\<close> of the staging root: its archive entry, and
  whether the exclusion loop passes its whole path.
\<close>

definition arc_of :: "string list \<Rightarrow> string list \<times> string \<Rightarrow> string \<times> string" where
  "arc_of ds = (\<lambda>(segs, c). (slash_join (ds @ segs), c))"

definition survives :: "string list \<Rightarrow> string list \<times> string \<Rightarrow> bool" where
  "survives ds = (\<lambda>(segs, c). \<not> exclude_loop (source_dir # ds @ segs))"

text \<open>Example directories.\<close>

definition scenario_tree :: node where
  "scenario_tree =
     Dir [(''app'', Dir [(''index.js'', File ''i''),
                         (''.git'', Dir [(''config'', File ''g'')]),
                         (''.ebextensions'', Dir [(''env.config'', File ''e'')])])]"

definition round_trip_tree :: node where
  "round_trip_tree = Dir [(''public'', Dir [(''index.html'', File ''h'')]), (''Procfile'', procfile)]"

definition round_trip_cwd :: listing where
  "round_trip_cwd =
     [(''public'', Dir [(''index.html'', File ''h'')]), (source_dir, round_trip_tree)]"

definition log_tree :: node where
  "log_tree = Dir [(''logs'', Dir [(''server.log'', File ''l'')]), (''cache.tmp'', File ''t'')]"

text \<open>An encoding of archives for the examples: the names of the entries.\<close>

definition name_list :: "archive \<Rightarrow> string" where
  "name_list entries = concat (map (\<lambda>(arcname, c). arcname @ '';'') entries)"

definition rerun_cwd :: listing where
  "rerun_cwd =
     [(''client'', Dir [(''app.js'', File ''x'')]),
      (aws_zip, File ''old''),
      (aws_staging, Dir [(''stale'', File ''s'')])]"

section \<open>Properties of the exclusion predicate\<close>

lemma str_in_iff_sublist: "str_in pattern s \<longleftrightarrow> sublist pattern s"
  by (induction s) (auto simp: sublist_Cons_right)

lemma exclude_loop_iff: "exclude_loop ps \<longleftrightarrow> (\<exists>part \<in> set ps. part_excluded part)"
  by (induction ps) auto

lemma exclude_loop_append: "exclude_loop (ps @ qs) \<longleftrightarrow> exclude_loop ps \<or> exclude_loop qs"
  by (auto simp: exclude_loop_iff)

lemma part_excluded_iff:
  "part_excluded part \<longleftrightarrow>
     (\<exists>pattern \<in> set exclude_patterns. sublist pattern part) \<or>
     (prefix ''.'' part \<and> part \<notin> set allowed_dot_names)"
  by (auto simp: part_excluded_def list_ex_iff str_in_iff_sublist startswith_def)

lemma should_exclude_iff:
  "should_exclude path_str \<longleftrightarrow> (\<exists>part \<in> set (parts path_str). part_excluded part)"
  by (simp add: should_exclude_def exclude_loop_iff)

text \<open>
  C1. A path one of whose segments matches an exclusion marker, the segment not being one
  of the two allowed dot names, is excluded. A marker matches a segment when it occurs in
  it as a literal run of characters, which covers the segment being the marker itself.
\<close>

theorem should_exclude_marker_segment:
  assumes "part \<in> set (parts path_str)"
    and "pattern \<in> set exclude_patterns"
    and "sublist pattern part"
    and "part \<notin> set allowed_dot_names"
  shows "should_exclude path_str"
  using assms unfolding should_exclude_iff part_excluded_iff by blast

theorem should_exclude_marker_segment_witness:
  "''.git'' \<in> set (parts ''clean-aws-deploy/app/.git/config'')
   \<and> ''.git'' \<in> set exclude_patterns
   \<and> sublist ''.git'' ''.git''
   \<and> ''.git'' \<notin> set allowed_dot_names
   \<and> should_exclude ''clean-aws-deploy/app/.git/config''"
proof -
  have a: "''.git'' \<in> set (parts ''clean-aws-deploy/app/.git/config'')"
    by (simp add: parts_def path_root_def sep_def)
  have b: "''.git'' \<in> set exclude_patterns"
    by (simp add: exclude_patterns_def)
  have c: "sublist ''.git'' ''.git''"
    by simp
  have d: "''.git'' \<notin> set allowed_dot_names"
    by (simp add: allowed_dot_names_def)
  from should_exclude_marker_segment [OF a b c d] a b c d show ?thesis
    by blast
qed

text \<open>
  C2, as stated: a path all of whose segments neither start with a dot nor are exclusion
  markers is not excluded. It fails: the one segment of \<^verbatim>\<open>distribution\<close> does not start
  with a dot and is none of the ten markers, yet the marker \<^verbatim>\<open>dist\<close> occurs in it.
\<close>

theorem non_marker_segments_counterexample:
  "\<not> (\<forall>path_str.
        (\<forall>part \<in> set (parts path_str).
            \<not> startswith part ''.'' \<and> part \<notin> set exclude_patterns)
        \<longrightarrow> \<not> should_exclude path_str)"
proof
  assume h: "\<forall>path_str.
        (\<forall>part \<in> set (parts path_str).
            \<not> startswith part ''.'' \<and> part \<notin> set exclude_patterns)
        \<longrightarrow> \<not> should_exclude path_str"
  have p: "parts ''distribution'' = [''distribution'']"
    by (simp add: parts_def path_root_def sep_def)
  have "\<forall>part \<in> set (parts ''distribution'').
          \<not> startswith part ''.'' \<and> part \<notin> set exclude_patterns"
    by (simp add: p startswith_def exclude_patterns_def)
  with h have "\<not> should_exclude ''distribution''"
    by blast
  moreover have "should_exclude ''distribution''"
    by (simp add: should_exclude_def p part_excluded_def exclude_patterns_def)
  ultimately show False
    by simp
qed

text \<open>
  C2, amended: a path all of whose segments neither start with a dot nor contain an
  exclusion marker as a run of characters is not excluded.
\<close>

theorem should_exclude_clean_segments:
  assumes "\<forall>part \<in> set (parts path_str).
             \<not> startswith part ''.'' \<and>
             \<not> (\<exists>pattern \<in> set exclude_patterns. sublist pattern part)"
  shows "\<not> should_exclude path_str"
  using assms unfolding should_exclude_iff part_excluded_iff startswith_def by blast

theorem should_exclude_clean_segments_witness:
  "parts ''app/index.js'' = [''app'', ''index.js'']
   \<and> list_all (\<lambda>part. \<not> startswith part ''.'' \<and>
          \<not> (\<exists>pattern \<in> set exclude_patterns. sublist pattern part))
        (parts ''app/index.js'')
   \<and> \<not> should_exclude ''app/index.js''"
proof -
  have p: "parts ''app/index.js'' = [''app'', ''index.js'']"
    by (simp add: parts_def path_root_def sep_def)
  have h: "\<forall>part \<in> set (parts ''app/index.js'').
             \<not> startswith part ''.'' \<and>
             \<not> (\<exists>pattern \<in> set exclude_patterns. sublist pattern part)"
    by (simp add: p startswith_def exclude_patterns_def str_in_iff_sublist [symmetric])
  from should_exclude_clean_segments [OF h] h p show ?thesis
    by (simp add: list_all_iff)
qed

text \<open>
  C8. Markers are matched as contiguous substrings: a path with a segment that has a
  marker anywhere inside it is excluded, whatever surrounds the marker in the segment.
  So the segments \<^verbatim>\<open>distribution\<close> and \<^verbatim>\<open>distance\<close> are excluded for containing
  \<^verbatim>\<open>dist\<close>.
\<close>

theorem should_exclude_substring:
  assumes "part \<in> set (parts path_str)"
    and "pattern \<in> set exclude_patterns"
    and "part = pre @ pattern @ post"
  shows "should_exclude path_str"
proof -
  have "sublist pattern part"
    using assms(3) by (auto simp: sublist_def)
  with assms(1,2) show ?thesis
    unfolding should_exclude_iff part_excluded_iff by blast
qed

theorem should_exclude_substring_witness:
  "''distribution'' \<in> set (parts ''src/distribution/main.js'')
   \<and> ''distance'' \<in> set (parts ''distance'')
   \<and> ''dist'' \<in> set exclude_patterns
   \<and> ''distribution'' = [] @ ''dist'' @ ''ribution''
   \<and> ''distance'' = [] @ ''dist'' @ ''ance''
   \<and> should_exclude ''src/distribution/main.js''
   \<and> should_exclude ''distance''"
proof -
  have a1: "''distribution'' \<in> set (parts ''src/distribution/main.js'')"
    by (simp add: parts_def path_root_def sep_def)
  have a2: "''distance'' \<in> set (parts ''distance'')"
    by (simp add: parts_def path_root_def sep_def)
  have b: "''dist'' \<in> set exclude_patterns"
    by (simp add: exclude_patterns_def)
  have c1: "''distribution'' = [] @ ''dist'' @ ''ribution''"
    by simp
  have c2: "''distance'' = [] @ ''dist'' @ ''ance''"
    by simp
  from should_exclude_substring [OF a1 b c1] should_exclude_substring [OF a2 b c2]
    a1 a2 b c1 c2
  show ?thesis
    by blast
qed

section \<open>Paths built from valid names\<close>

lemma split_sep_nonempty: "split_sep s \<noteq> []"
  by (induction s) (auto split: list.splits)

lemma split_sep_no_sep: "sep \<notin> set x \<Longrightarrow> split_sep x = [x]"
  by (induction x) (auto split: list.splits)

lemma split_sep_append: "sep \<notin> set x \<Longrightarrow> split_sep (x @ sep # rest) = x # split_sep rest"
  by (induction x) (auto split: list.splits)

lemma split_sep_slash_join:
  "xs \<noteq> [] \<Longrightarrow> \<forall>x \<in> set xs. sep \<notin> set x \<Longrightarrow> split_sep (slash_join xs) = xs"
proof (induction xs rule: slash_join.induct)
  case 1
  then show ?case by simp
next
  case (2 x)
  then show ?case by (simp add: split_sep_no_sep)
next
  case (3 x y ys)
  have "slash_join (x # y # ys) = x @ sep # slash_join (y # ys)"
    by (simp add: sep_def)
  with 3 show ?case
    by (simp only: split_sep_append) (simp add: split_sep_append)
qed

lemma slash_join_snoc:
  "xs \<noteq> [] \<Longrightarrow> slash_join (xs @ [n]) = slash_join xs @ ''/'' @ n"
  by (induction xs rule: slash_join.induct) auto

lemma slash_join_nonempty:
  "xs \<noteq> [] \<Longrightarrow> \<forall>x \<in> set xs. x \<noteq> [] \<Longrightarrow> slash_join xs \<noteq> []"
  by (induction xs rule: slash_join.induct) auto

lemma slash_join_last:
  "xs \<noteq> [] \<Longrightarrow> \<forall>x \<in> set xs. x \<noteq> [] \<Longrightarrow> last (slash_join xs) = last (last xs)"
  by (induction xs rule: slash_join.induct) (auto simp: slash_join_nonempty)

lemma valid_name_last: "valid_name x \<Longrightarrow> last x \<noteq> sep"
  unfolding valid_name_def using last_in_set by metis

lemma valid_name_not_abs: "valid_name n \<Longrightarrow> \<not> startswith n ''/''"
  by (cases n) (auto simp: startswith_def valid_name_def sep_def)

lemma join_plain:
  "p \<noteq> [] \<Longrightarrow> last p \<noteq> sep \<Longrightarrow> valid_name n \<Longrightarrow> join p n = p @ ''/'' @ n"
  by (simp add: join_def valid_name_not_abs)

lemma join_slash_join:
  assumes "xs \<noteq> []" "\<forall>x \<in> set xs. valid_name x" "valid_name n"
  shows "join (slash_join xs) n = slash_join (xs @ [n])"
proof -
  have ne: "slash_join xs \<noteq> []"
    using assms by (intro slash_join_nonempty) (auto simp: valid_name_def)
  have "last (slash_join xs) = last (last xs)"
    using assms by (intro slash_join_last) (auto simp: valid_name_def)
  moreover have "valid_name (last xs)"
    using assms by simp
  ultimately have l: "last (slash_join xs) \<noteq> sep"
    by (simp add: valid_name_last)
  show ?thesis
    using ne l assms(1,3) by (simp add: join_plain slash_join_snoc)
qed

lemma slash_join_Cons: "slash_join (x # ys) = x @ concat (map ((@) ''/'') ys)"
  by (induction ys arbitrary: x) auto

lemma join_list_Cons:
  "p \<noteq> [] \<Longrightarrow> last p \<noteq> sep \<Longrightarrow> \<forall>b \<in> set bs. valid_name b
   \<Longrightarrow> join_list (p # bs) = p @ concat (map ((@) ''/'') bs)"
proof (induction bs arbitrary: p)
  case Nil
  then show ?case by simp
next
  case (Cons b bs)
  have j: "join p b = p @ ''/'' @ b"
    using Cons.prems by (simp add: join_plain)
  have "b \<noteq> []" "last b \<noteq> sep"
    using Cons.prems by (auto simp: valid_name_last) (simp add: valid_name_def)
  then have "join p b \<noteq> []" "last (join p b) \<noteq> sep"
    by (auto simp: j)
  with Cons.IH [of "join p b"] Cons.prems show ?case
    by (simp add: j)
qed

lemma join_list_valid:
  assumes "\<forall>x \<in> set xs. valid_name x"
  shows "join_list xs = slash_join xs"
proof (cases xs)
  case Nil
  then show ?thesis by simp
next
  case (Cons x ys)
  have "x \<noteq> []" "last x \<noteq> sep"
    using assms Cons by (auto simp: valid_name_last) (simp add: valid_name_def)
  with assms Cons show ?thesis
    by (simp add: join_list_Cons slash_join_Cons)
qed

lemma parts_slash_join:
  assumes "xs \<noteq> []" "\<forall>x \<in> set xs. valid_name x"
  shows "parts (slash_join xs) = xs"
proof -
  obtain x ys where xs: "xs = x # ys"
    using assms(1) by (cases xs) auto
  obtain c cs where x: "x = c # cs" "c \<noteq> sep"
    using assms(2) xs by (cases x) (auto simp: valid_name_def)
  have "take 1 (slash_join xs) = [c]"
    by (simp add: xs x slash_join_Cons)
  then have r: "path_root (slash_join xs) = []"
    using x(2) by (simp add: path_root_def sep_def)
  have "split_sep (slash_join xs) = xs"
    using assms by (intro split_sep_slash_join) (auto simp: valid_name_def)
  moreover have "filter (\<lambda>x. x \<noteq> [] \<and> x \<noteq> ''.'') xs = xs"
    using assms(2) by (auto simp: valid_name_def filter_id_conv)
  ultimately show ?thesis
    by (simp add: parts_def r)
qed

lemma components_slash_join:
  assumes "xs \<noteq> []" "\<forall>x \<in> set xs. valid_name x"
  shows "components (slash_join xs) = xs"
proof -
  have "split_sep (slash_join xs) = xs"
    using assms by (intro split_sep_slash_join) (auto simp: valid_name_def)
  moreover have "filter (\<lambda>x. x \<noteq> []) xs = xs"
    using assms(2) by (auto simp: valid_name_def filter_id_conv)
  ultimately show ?thesis
    by (simp add: components_def)
qed

lemma relpath_below:
  assumes "valid_name r" "ds \<noteq> []" "\<forall>x \<in> set ds. valid_name x"
  shows "relpath (slash_join (r # ds)) r = slash_join ds"
proof -
  have c1: "components r = [r]"
    using components_slash_join [of "[r]"] assms(1) by simp
  have c2: "components (slash_join (r # ds)) = r # ds"
    using assms by (intro components_slash_join) auto
  obtain d ds' where ds: "ds = d # ds'"
    using assms(2) by (cases ds) auto
  show ?thesis
    using assms(3) by (simp add: relpath_def c1 c2 Let_def join_list_valid) (simp add: ds)
qed

section \<open>The walk of Builder B\<close>

lemma concat_concat_map: "concat (concat (map f es)) = concat (map (\<lambda>x. concat (f x)) es)"
  by (induction es) auto

lemma walk_entries_File: "walk_entries p (File c) = []"
  by (simp add: walk_entries_def)

lemma walk_entries_Dir:
  "walk_entries p (Dir es) =
     add_files p [(f, c). (f, File c) \<leftarrow> es] @
     concat (map (\<lambda>(d, x). if is_dir x \<and> keep_dir p d then walk_entries (join p d) x else []) es)"
  by (simp add: walk_entries_def Let_def map_concat comp_def case_prod_unfold if_distrib [of "map _"]
      if_distrib [of concat] concat_concat_map cong: if_cong)

lemma valid_source_dir: "valid_name source_dir"
  by (simp add: valid_name_def source_dir_def sep_def)

lemma should_exclude_below:
  assumes "\<forall>x \<in> set ds. valid_name x"
  shows "should_exclude (slash_join (source_dir # ds)) = exclude_loop (source_dir # ds)"
  using assms valid_source_dir by (simp add: should_exclude_def parts_slash_join)

lemma join_below:
  assumes "\<forall>x \<in> set ds. valid_name x" "valid_name n"
  shows "join (slash_join (source_dir # ds)) n = slash_join (source_dir # ds @ [n])"
  using join_slash_join [of "source_dir # ds" n] assms valid_source_dir by simp

lemma add_files_below:
  assumes "\<forall>x \<in> set ds. valid_name x" "\<forall>(f, c) \<in> set files. valid_name f"
  shows "add_files (slash_join (source_dir # ds)) files =
         map (arc_of ds) (filter (survives ds) (map (\<lambda>(f, c). ([f], c)) files))"
  using assms(2)
proof (induction files)
  case Nil
  then show ?case by (simp add: add_files_def)
next
  case (Cons fc files)
  obtain f c where fc: "fc = (f, c)"
    by (cases fc)
  have vf: "valid_name f"
    using Cons.prems fc by simp
  have v: "\<forall>x \<in> set (ds @ [f]). valid_name x"
    using assms(1) vf by simp
  have j: "join (slash_join (source_dir # ds)) f = slash_join (source_dir # ds @ [f])"
    using assms(1) vf by (rule join_below)
  have e: "should_exclude (slash_join (source_dir # ds @ [f])) = exclude_loop (source_dir # ds @ [f])"
    using should_exclude_below [OF v] by simp
  have r: "relpath (slash_join (source_dir # ds @ [f])) source_dir = slash_join (ds @ [f])"
    using relpath_below [of source_dir "ds @ [f]"] valid_source_dir v by simp
  have IH: "add_files (slash_join (source_dir # ds)) files =
         map (arc_of ds) (filter (survives ds) (map (\<lambda>(f, c). ([f], c)) files))"
    using Cons by simp
  have "add_files (slash_join (source_dir # ds)) (fc # files) =
        (if \<not> exclude_loop (source_dir # ds @ [f]) then [(slash_join (ds @ [f]), c)] else [])
        @ add_files (slash_join (source_dir # ds)) files"
    by (simp add: add_files_def fc j e r)
  then show ?case
    by (simp add: IH fc arc_of_def survives_def)
qed


lemma nondirs_as_files:
  "map (\<lambda>(f, c). ([f], c)) [(f, c). (f, File c) \<leftarrow> es] = [([f], c). (f, File c) \<leftarrow> es]"
  by (induction es) (auto split: node.splits)

lemma nondirs_valid:
  "valid_tree (Dir es) \<Longrightarrow> \<forall>(f, c) \<in> set [(f, c). (f, File c) \<leftarrow> es]. valid_name f"
  by (auto simp: list_all_iff split: node.splits)

lemma walk_entries_below:
  assumes "valid_tree x" "\<forall>d \<in> set ds. valid_name d"
  shows "walk_entries (slash_join (source_dir # ds)) x =
         map (arc_of ds) (filter (survives ds) (files_of x))"
  using assms
proof (induction x arbitrary: ds)
  case (File c)
  then show ?case by (simp add: walk_entries_File)
next
  case (Dir es)
  let ?p = "slash_join (source_dir # ds)"
  have files: "add_files ?p [(f, c). (f, File c) \<leftarrow> es] =
        map (arc_of ds) (filter (survives ds) [([f], c). (f, File c) \<leftarrow> es])"
    using add_files_below [OF Dir.prems(2) nondirs_valid [OF Dir.prems(1)]]
    by (simp only: nondirs_as_files)
  have sub: "(if is_dir y \<and> keep_dir ?p d then walk_entries (join ?p d) y else []) =
        map (arc_of ds) (filter (survives ds) (map (\<lambda>(segs, c). (d # segs, c)) (files_of y)))"
    if mem: "(d, y) \<in> set es" for d y
  proof -
    have vd: "valid_name d" and vy: "valid_tree y"
      using Dir.prems(1) mem by (auto simp: list_all_iff)
    have v: "\<forall>x \<in> set (ds @ [d]). valid_name x"
      using Dir.prems(2) vd by simp
    have j: "join ?p d = slash_join (source_dir # (ds @ [d]))"
      using join_below [OF Dir.prems(2) vd] by simp
    have k: "keep_dir ?p d = (\<not> exclude_loop (source_dir # ds @ [d]))"
      using should_exclude_below [OF v] by (simp add: keep_dir_def j)
    have rhs: "map (arc_of ds) (filter (survives ds) (map (\<lambda>(segs, c). (d # segs, c)) (files_of y)))
          = map (arc_of (ds @ [d])) (filter (survives (ds @ [d])) (files_of y))"
      by (simp add: filter_map comp_def arc_of_def survives_def case_prod_unfold)
    show ?thesis
    proof (cases "is_dir y \<and> keep_dir ?p d")
      case True
      have "walk_entries (slash_join (source_dir # (ds @ [d]))) y =
            map (arc_of (ds @ [d])) (filter (survives (ds @ [d])) (files_of y))"
        using Dir.IH [of "(d, y)" y "ds @ [d]"] mem vy v by simp
      with True show ?thesis
        by (simp add: rhs j)
    next
      case False
      have "filter (survives (ds @ [d])) (files_of y) = []"
      proof (cases y)
        case (File c)
        then show ?thesis by simp
      next
        case (Dir es')
        with False have "exclude_loop (source_dir # ds @ [d])"
          by (simp add: k)
        then have "\<not> survives (ds @ [d]) sc" for sc
          using exclude_loop_append [of "source_dir # ds @ [d]"]
          by (cases sc) (simp add: survives_def exclude_loop_iff)
        then show ?thesis
          by simp
      qed
      with False show ?thesis
        by (auto simp: rhs)
    qed
  qed
  have "concat (map (\<lambda>(d, y). if is_dir y \<and> keep_dir ?p d then walk_entries (join ?p d) y else []) es)
      = concat (map (\<lambda>(d, y). map (arc_of ds) (filter (survives ds)
            (map (\<lambda>(segs, c). (d # segs, c)) (files_of y)))) es)"
    using sub by (intro arg_cong [of _ _ concat] map_cong) auto
  also have "\<dots> = map (arc_of ds) (filter (survives ds)
        (concat (map (\<lambda>(d, y). map (\<lambda>(segs, c). (d # segs, c)) (files_of y)) es)))"
    by (simp add: map_concat filter_concat comp_def case_prod_unfold)
  finally show ?case
    by (simp add: walk_entries_Dir files)
qed

section \<open>The walk of Builder A\<close>

lemma copy_entries_File: "copy_entries p (File c) = []"
  by (simp add: copy_entries_def)

lemma copy_entries_Dir:
  "copy_entries p (Dir es) =
     map (\<lambda>(file, c). (relpath (join p file) aws_staging, c)) [(f, c). (f, File c) \<leftarrow> es] @
     concat (map (\<lambda>(d, x). if is_dir x then copy_entries (join p d) x else []) es)"
  by (simp add: copy_entries_def Let_def map_concat comp_def case_prod_unfold if_distrib [of "map _"]
      if_distrib [of concat] concat_concat_map cong: if_cong)

lemma valid_aws_staging: "valid_name aws_staging"
  by (simp add: valid_name_def aws_staging_def sep_def)

lemma copy_files_below:
  assumes "\<forall>x \<in> set ds. valid_name x" "\<forall>(f, c) \<in> set files. valid_name f"
  shows "map (\<lambda>(file, c). (relpath (join (slash_join (aws_staging # ds)) file) aws_staging, c)) files =
         map (arc_of ds) (map (\<lambda>(f, c). ([f], c)) files)"
proof -
  have "relpath (join (slash_join (aws_staging # ds)) f) aws_staging = slash_join (ds @ [f])"
    if "valid_name f" for f
  proof -
    have "join (slash_join (aws_staging # ds)) f = slash_join (aws_staging # ds @ [f])"
      using join_slash_join [of "aws_staging # ds" f] assms(1) that valid_aws_staging by simp
    moreover have "relpath (slash_join (aws_staging # ds @ [f])) aws_staging = slash_join (ds @ [f])"
      using relpath_below [of aws_staging "ds @ [f]"] assms(1) that valid_aws_staging by simp
    ultimately show ?thesis
      by simp
  qed
  with assms(2) show ?thesis
    by (auto simp: arc_of_def)
qed

lemma copy_entries_below:
  assumes "valid_tree x" "\<forall>d \<in> set ds. valid_name d"
  shows "copy_entries (slash_join (aws_staging # ds)) x = map (arc_of ds) (files_of x)"
  using assms
proof (induction x arbitrary: ds)
  case (File c)
  then show ?case by (simp add: copy_entries_File)
next
  case (Dir es)
  let ?p = "slash_join (aws_staging # ds)"
  have files: "map (\<lambda>(file, c). (relpath (join ?p file) aws_staging, c)) [(f, c). (f, File c) \<leftarrow> es] =
        map (arc_of ds) [([f], c). (f, File c) \<leftarrow> es]"
    using copy_files_below [OF Dir.prems(2) nondirs_valid [OF Dir.prems(1)]]
    by (simp only: nondirs_as_files)
  have sub: "(if is_dir y then copy_entries (join ?p d) y else []) =
        map (arc_of ds) (map (\<lambda>(segs, c). (d # segs, c)) (files_of y))"
    if mem: "(d, y) \<in> set es" for d y
  proof (cases y)
    case (File c)
    then show ?thesis by simp
  next
    case (Dir es')
    have vd: "valid_name d" and vy: "valid_tree y"
      using Dir.prems(1) mem by (auto simp: list_all_iff)
    have v: "\<forall>x \<in> set (ds @ [d]). valid_name x"
      using Dir.prems(2) vd by simp
    have j: "join ?p d = slash_join (aws_staging # (ds @ [d]))"
      using join_slash_join [of "aws_staging # ds" d] Dir.prems(2) vd valid_aws_staging by simp
    have "copy_entries (slash_join (aws_staging # (ds @ [d]))) y = map (arc_of (ds @ [d])) (files_of y)"
      using Dir.IH [of "(d, y)" y "ds @ [d]"] mem vy v by simp
    then show ?thesis
      using Dir by (simp add: j arc_of_def case_prod_unfold)
  qed
  have "concat (map (\<lambda>(d, y). if is_dir y then copy_entries (join ?p d) y else []) es)
      = concat (map (\<lambda>(d, y). map (arc_of ds) (map (\<lambda>(segs, c). (d # segs, c)) (files_of y))) es)"
    using sub by (intro arg_cong [of _ _ concat] map_cong) auto
  also have "\<dots> = map (arc_of ds)
        (concat (map (\<lambda>(d, y). map (\<lambda>(segs, c). (d # segs, c)) (files_of y)) es))"
    by (simp add: map_concat comp_def case_prod_unfold)
  finally show ?case
    by (simp add: copy_entries_Dir files)
qed

lemma deployment_entries_eq:
  assumes "map_of cwd source_dir = Some tree" "valid_tree tree"
  shows "deployment_entries cwd =
         map (\<lambda>(segs, c). (slash_join segs, c))
           (filter (\<lambda>(segs, c). \<not> exclude_loop (source_dir # segs)) (files_of tree))"
  using walk_entries_below [of tree "[]"] assms
  by (simp add: deployment_entries_def walk_from_def walk_entries_def arc_of_def survives_def)

lemma aws_entries_eq:
  assumes "map_of cwd aws_staging = Some tree" "valid_tree tree"
  shows "aws_entries cwd = map (\<lambda>(segs, c). (slash_join segs, c)) (files_of tree)"
  using copy_entries_below [of tree "[]"] assms
  by (simp add: aws_entries_def walk_from_def copy_entries_def arc_of_def)

lemma files_of_valid:
  "valid_tree x \<Longrightarrow> (segs, c) \<in> set (files_of x) \<Longrightarrow> segs \<noteq> [] \<and> (\<forall>s \<in> set segs. valid_name s)"
proof (induction x arbitrary: segs)
  case (File c')
  then show ?case by simp
next
  case (Dir es)
  from Dir.prems(2) consider
    (leaf) f where "(f, File c) \<in> set es" "segs = [f]"
    | (below) d y segs' where "(d, y) \<in> set es" "(segs', c) \<in> set (files_of y)" "segs = d # segs'"
    by (auto split: node.splits)
  then show ?case
  proof cases
    case leaf
    with Dir.prems(1) show ?thesis
      by (auto simp: list_all_iff)
  next
    case below
    with Dir.prems(1) have "valid_name d" "valid_tree y"
      by (auto simp: list_all_iff)
    with Dir.IH [of "(d, y)" y segs'] below show ?thesis
      by auto
  qed
qed

lemma should_exclude_file:
  assumes "segs \<noteq> []" "\<forall>s \<in> set segs. valid_name s"
  shows "should_exclude (slash_join (source_dir # segs)) = exclude_loop (source_dir # segs)"
  using should_exclude_below [of segs] assms by simp

section \<open>Operations on the working directory\<close>

lemma map_of_delete_entry:
  "map_of (delete_entry n cwd) m = (if m = n then None else map_of cwd m)"
  by (induction cwd) (auto simp: delete_entry_def)

lemma map_of_put_entry:
  "map_of (put_entry n x cwd) m = (if m = n then Some x else map_of cwd m)"
  by (auto simp: put_entry_def map_of_append map_add_def map_of_delete_entry split: option.splits)

lemma delete_entry_absent: "map_of cwd n = None \<Longrightarrow> delete_entry n cwd = cwd"
  by (induction cwd) (auto simp: delete_entry_def split: if_splits)

lemma delete_entry_idem: "delete_entry n (delete_entry n cwd) = delete_entry n cwd"
  by (simp add: delete_entry_def)

lemma delete_entry_commute:
  "delete_entry n (delete_entry m cwd) = delete_entry m (delete_entry n cwd)"
  by (auto simp: delete_entry_def intro: filter_cong)

lemma delete_put_entry: "delete_entry n (put_entry n x cwd) = delete_entry n cwd"
  by (simp add: put_entry_def delete_entry_def)

lemma put_put_entry: "put_entry n y (put_entry n x cwd) = put_entry n y cwd"
  by (simp add: put_entry_def delete_entry_def)

lemma source_dir_neq_zip_path: "source_dir \<noteq> zip_path"
  by (simp add: source_dir_def zip_path_def)

lemma unlink_existing_Inr:
  "unlink_existing cwd = Inr cwd1 \<Longrightarrow> cwd1 = delete_entry zip_path cwd"
  by (auto simp: unlink_existing_def os_remove_def path_exists_def delete_entry_absent
      split: if_splits option.splits node.splits)

lemma unlink_existing_ok:
  "(\<exists>cwd1. unlink_existing cwd = Inr cwd1) \<longleftrightarrow> (\<forall>es. map_of cwd zip_path \<noteq> Some (Dir es))"
  by (auto simp: unlink_existing_def os_remove_def path_exists_def
      split: if_splits option.splits node.splits)

lemma deployment_entries_cong:
  "map_of cwd' source_dir = map_of cwd source_dir \<Longrightarrow> deployment_entries cwd' = deployment_entries cwd"
  by (simp add: deployment_entries_def walk_from_def)

lemma create_deployment_zip_Inr:
  assumes "create_deployment_zip deflate cwd = Inr (cwd', out)"
  shows "cwd' = put_entry zip_path (File (deflate (deployment_entries cwd))) cwd
       \<and> out = map (\<lambda>(arcname, c). ''Added: '' @ arcname) (deployment_entries cwd) @
               summary_lines (length (deflate (deployment_entries cwd)))"
proof -
  from assms obtain cwd1 where u: "unlink_existing cwd = Inr cwd1"
    by (auto simp: create_deployment_zip_def split: sum.splits)
  then have c1: "cwd1 = delete_entry zip_path cwd"
    by (rule unlink_existing_Inr)
  have e: "deployment_entries (put_entry zip_path (File []) cwd1) = deployment_entries cwd"
    using source_dir_neq_zip_path
    by (intro deployment_entries_cong) (simp add: c1 map_of_put_entry map_of_delete_entry)
  have p: "put_entry zip_path x (put_entry zip_path (File []) cwd1) = put_entry zip_path x cwd" for x
    by (simp add: put_put_entry c1) (simp add: put_entry_def delete_entry_idem)
  from assms show ?thesis
    by (simp add: create_deployment_zip_def u Let_def e p summary_lines_def)
qed

lemma create_deployment_zip_ok:
  assumes "\<forall>es. map_of cwd zip_path \<noteq> Some (Dir es)"
  shows "\<exists>cwd' out. create_deployment_zip deflate cwd = Inr (cwd', out)"
proof -
  from assms obtain cwd1 where "unlink_existing cwd = Inr cwd1"
    using unlink_existing_ok by blast
  then show ?thesis
    by (simp add: create_deployment_zip_def Let_def)
qed

lemma slash_join_inj:
  assumes "xs \<noteq> []" "ys \<noteq> []" "\<forall>x \<in> set xs. valid_name x" "\<forall>y \<in> set ys. valid_name y"
    and "slash_join xs = slash_join ys"
  shows "xs = ys"
proof -
  have "components (slash_join xs) = xs"
    using assms(1,3) by (rule components_slash_join)
  moreover have "components (slash_join ys) = ys"
    using assms(2,4) by (rule components_slash_join)
  ultimately show ?thesis
    using assms(5) by metis
qed


section \<open>The steps of Builder A\<close>

lemma aws_names_distinct: "aws_zip \<noteq> aws_staging"
  by (simp add: aws_zip_def aws_staging_def)

lemma remove_existing_Inr:
  assumes "remove_existing cwd = Inr cwd1"
  shows "cwd1 = delete_entry aws_staging (delete_entry aws_zip cwd)"
proof -
  obtain c where c: "(if path_exists cwd aws_zip then os_remove aws_zip cwd else Inr cwd) = Inr c"
    and r: "(if path_exists c aws_staging then rmtree aws_staging c else Inr c) = Inr cwd1"
    using assms by (auto simp: remove_existing_def split: sum.splits)
  have "c = delete_entry aws_zip cwd"
    using c by (auto simp: os_remove_def path_exists_def delete_entry_absent
        split: if_splits option.splits node.splits)
  moreover have "cwd1 = delete_entry aws_staging c"
    using r by (auto simp: rmtree_def path_exists_def delete_entry_absent
        split: if_splits option.splits node.splits)
  ultimately show ?thesis
    by simp
qed

lemma remove_existing_absent:
  "map_of cwd aws_zip = None \<Longrightarrow> map_of cwd aws_staging = None \<Longrightarrow> remove_existing cwd = Inr cwd"
  by (simp add: remove_existing_def path_exists_def)

lemma remove_existing_archive:
  assumes "map_of base aws_zip = None" "map_of base aws_staging = None"
  shows "remove_existing (base @ [(aws_zip, File z)]) = Inr base"
proof -
  have d: "delete_entry aws_zip (base @ [(aws_zip, File z)]) = base"
    using delete_entry_absent [OF assms(1)] by (simp add: delete_entry_def)
  have "map_of (base @ [(aws_zip, File z)]) aws_zip = Some (File z)"
    using assms(1) by (simp add: map_of_append map_add_def)
  then show ?thesis
    using assms(2) by (simp add: remove_existing_def path_exists_def os_remove_def d)
qed

lemma map_of_staged:
  "map_of base aws_staging = None \<Longrightarrow>
   map_of (base @ [(aws_staging, x)]) n = (if n = aws_staging then Some x else map_of base n)"
  by (auto simp: map_of_append map_add_def split: option.splits)

lemma put_staged:
  "map_of base aws_staging = None \<Longrightarrow>
   put_entry aws_staging y (base @ [(aws_staging, x)]) = base @ [(aws_staging, y)]"
  using delete_entry_absent [of base aws_staging] by (simp add: put_entry_def delete_entry_def)

lemma staging_put_staged:
  assumes "map_of base aws_staging = None"
  shows "staging_put n x (base @ [(aws_staging, Dir st)]) =
         Inr (base @ [(aws_staging, Dir (put_entry n x st))])"
proof -
  have "map_of (base @ [(aws_staging, Dir st)]) aws_staging = Some (Dir st)"
    using assms by (simp add: map_of_staged del: map_of_append)
  then show ?thesis
    unfolding staging_put_def by (simp only: put_staged [OF assms] option.case node.case)
qed

lemma copytree_staged:
  assumes "map_of base aws_staging = None"
    and "copytree n (base @ [(aws_staging, Dir st)]) = Inr cwd'"
  shows "\<exists>st'. cwd' = base @ [(aws_staging, Dir st')]"
proof -
  from assms(2) obtain es where
    "staging_put n (Dir es) (base @ [(aws_staging, Dir st)]) = Inr cwd'"
    unfolding copytree_def by (auto split: option.splits node.splits if_splits)
  then show ?thesis
    by (simp only: staging_put_staged [OF assms(1)] sum.inject) blast
qed

lemma copy2_staged:
  assumes "map_of base aws_staging = None"
    and "copy2 n (base @ [(aws_staging, Dir st)]) = Inr cwd'"
  shows "\<exists>st'. cwd' = base @ [(aws_staging, Dir st')]"
proof -
  from assms(2) obtain c where
    "staging_put n (File c) (base @ [(aws_staging, Dir st)]) = Inr cwd'"
    unfolding copy2_def by (auto split: option.splits node.splits)
  then show ?thesis
    by (simp only: staging_put_staged [OF assms(1)] sum.inject) blast
qed


lemma copy_dirs_staged:
  assumes "map_of base aws_staging = None"
  shows "copy_dirs ns (base @ [(aws_staging, Dir st)]) = Inr cwd'
         \<Longrightarrow> \<exists>st'. cwd' = base @ [(aws_staging, Dir st')]"
proof (induction ns arbitrary: st)
  case Nil
  then show ?case by auto
next
  case (Cons n ns)
  show ?case
  proof (cases "path_exists (base @ [(aws_staging, Dir st)]) n")
    case True
    with Cons.prems obtain c where c: "copytree n (base @ [(aws_staging, Dir st)]) = Inr c"
      and r: "copy_dirs ns c = Inr cwd'"
      by (auto split: sum.splits)
    from copytree_staged [OF assms c] obtain st1 where "c = base @ [(aws_staging, Dir st1)]"
      by blast
    with r Cons.IH show ?thesis
      by blast
  next
    case False
    with Cons.prems have "copy_dirs ns (base @ [(aws_staging, Dir st)]) = Inr cwd'"
      by simp
    then show ?thesis
      by (rule Cons.IH)
  qed
qed

lemma copy_files_staged:
  assumes "map_of base aws_staging = None"
  shows "copy_files ns (base @ [(aws_staging, Dir st)]) = Inr cwd'
         \<Longrightarrow> \<exists>st'. cwd' = base @ [(aws_staging, Dir st')]"
proof (induction ns arbitrary: st)
  case Nil
  then show ?case by auto
next
  case (Cons n ns)
  show ?case
  proof (cases "path_exists (base @ [(aws_staging, Dir st)]) n")
    case True
    with Cons.prems obtain c where c: "copy2 n (base @ [(aws_staging, Dir st)]) = Inr c"
      and r: "copy_files ns c = Inr cwd'"
      by (auto split: sum.splits)
    from copy2_staged [OF assms c] obtain st1 where "c = base @ [(aws_staging, Dir st1)]"
      by blast
    with r Cons.IH show ?thesis
      by blast
  next
    case False
    with Cons.prems have "copy_files ns (base @ [(aws_staging, Dir st)]) = Inr cwd'"
      by simp
    then show ?thesis
      by (rule Cons.IH)
  qed
qed


lemma sum_bind_Inr:
  "(case r of Inl e \<Rightarrow> Inl e | Inr x \<Rightarrow> f x) = Inr y \<Longrightarrow> \<exists>x. r = Inr x \<and> f x = Inr y"
  by (cases r) auto

lemma assemble_staging_Inr:
  assumes "map_of base aws_staging = None" "assemble_staging base = Inr cwd'"
  shows "\<exists>st. cwd' = base @ [(aws_staging, Dir st)]"
proof -
  have m: "makedirs aws_staging base = Inr (base @ [(aws_staging, Dir [])])"
    using assms(1) by (simp add: makedirs_def put_entry_def delete_entry_absent)
  from assms(2) have "(case copy_dirs essential_dirs (base @ [(aws_staging, Dir [])]) of
        Inl e \<Rightarrow> Inl e
      | Inr cwd2 \<Rightarrow>
     (case copy_files files_to_copy cwd2 of
        Inl e \<Rightarrow> Inl e
      | Inr cwd3 \<Rightarrow>
     (case copy_platform cwd3 of
        Inl e \<Rightarrow> Inl e
      | Inr cwd4 \<Rightarrow> staging_put ''Procfile'' procfile cwd4))) = Inr cwd'"
    unfolding assemble_staging_def m by (simp only: sum.case)
  from sum_bind_Inr [OF this] obtain c2 where
    c2: "copy_dirs essential_dirs (base @ [(aws_staging, Dir [])]) = Inr c2"
    and r2: "(case copy_files files_to_copy c2 of
        Inl e \<Rightarrow> Inl e
      | Inr cwd3 \<Rightarrow>
     (case copy_platform cwd3 of
        Inl e \<Rightarrow> Inl e
      | Inr cwd4 \<Rightarrow> staging_put ''Procfile'' procfile cwd4)) = Inr cwd'"
    by blast
  from sum_bind_Inr [OF r2] obtain c3 where
    c3: "copy_files files_to_copy c2 = Inr c3"
    and r3: "(case copy_platform c3 of
        Inl e \<Rightarrow> Inl e
      | Inr cwd4 \<Rightarrow> staging_put ''Procfile'' procfile cwd4) = Inr cwd'"
    by blast
  from sum_bind_Inr [OF r3] obtain c4 where
    c4: "copy_platform c3 = Inr c4"
    and c5: "staging_put ''Procfile'' procfile c4 = Inr cwd'"
    by blast
  from copy_dirs_staged [OF assms(1) c2] obtain s2 where s2: "c2 = base @ [(aws_staging, Dir s2)]"
    by blast
  from copy_files_staged [OF assms(1)] c3 s2 obtain s3 where s3: "c3 = base @ [(aws_staging, Dir s3)]"
    by blast
  have "\<exists>s4. c4 = base @ [(aws_staging, Dir s4)]"
  proof (cases "path_exists c3 ''.platform''")
    case True
    with c4 have "copytree ''.platform'' (base @ [(aws_staging, Dir s3)]) = Inr c4"
      by (simp only: copy_platform_def s3 if_True)
    then show ?thesis
      by (rule copytree_staged [OF assms(1)])
  next
    case False
    with c4 have "c4 = c3"
      by (simp only: copy_platform_def if_False sum.inject)
    with s3 show ?thesis
      by blast
  qed
  then obtain s4 where s4: "c4 = base @ [(aws_staging, Dir s4)]"
    by blast
  from c5 have "cwd' = base @ [(aws_staging, Dir (put_entry ''Procfile'' procfile s4))]"
    by (simp only: s4 staging_put_staged [OF assms(1)] sum.inject)
  then show ?thesis
    by blast
qed


lemma aws_entries_cong:
  "map_of cwd' aws_staging = map_of cwd aws_staging \<Longrightarrow> aws_entries cwd' = aws_entries cwd"
  by (simp add: aws_entries_def walk_from_def)

lemma delete_entry_append:
  "delete_entry n (xs @ ys) = delete_entry n xs @ delete_entry n ys"
  by (simp add: delete_entry_def)

lemma create_aws_zip_from:
  assumes r: "remove_existing cwd = Inr base"
    and a: "assemble_staging base = Inr (base @ [(aws_staging, Dir st)])"
    and z: "map_of base aws_zip = None"
    and s: "map_of base aws_staging = None"
  shows "create_aws_zip deflate cwd =
         Inr (base @ [(aws_zip, File (deflate (aws_entries (base @ [(aws_staging, Dir st)]))))],
              aws_lines (length (deflate (aws_entries (base @ [(aws_staging, Dir st)])))))"
proof -
  let ?c2 = "base @ [(aws_staging, Dir st)]"
  have dz: "delete_entry aws_zip base = base" and ds: "delete_entry aws_staging base = base"
    using z s by (simp_all add: delete_entry_absent)
  have c3: "put_entry aws_zip (File y) ?c2 = base @ [(aws_staging, Dir st), (aws_zip, File y)]" for y
    using aws_names_distinct by (simp add: put_entry_def delete_entry_append dz) (simp add: delete_entry_def)
  have c4: "put_entry aws_zip (File y) (base @ [(aws_staging, Dir st), (aws_zip, File y')])
      = base @ [(aws_staging, Dir st), (aws_zip, File y)]" for y y'
    using aws_names_distinct by (simp add: put_entry_def delete_entry_append dz) (simp add: delete_entry_def)
  have m: "map_of (base @ [(aws_staging, Dir st), (aws_zip, File y)]) aws_staging = Some (Dir st)" for y
    using s aws_names_distinct by (simp add: map_of_append map_add_def)
  have e: "aws_entries (base @ [(aws_staging, Dir st), (aws_zip, File [])]) = aws_entries ?c2"
    using s by (intro aws_entries_cong) (simp add: m map_of_staged del: map_of_append)
  have d: "delete_entry aws_staging (base @ [(aws_staging, Dir st), (aws_zip, File y)])
      = base @ [(aws_zip, File y)]" for y
    using aws_names_distinct by (simp add: delete_entry_append ds) (simp add: delete_entry_def)
  have rm: "rmtree aws_staging (base @ [(aws_staging, Dir st), (aws_zip, File y)])
      = Inr (base @ [(aws_zip, File y)])" for y
    unfolding rmtree_def by (simp only: m d option.case node.case)
  show ?thesis
    unfolding create_aws_zip_def by (simp only: r a sum.case Let_def c3 c4 e rm)
qed

lemma create_aws_zip_Inr:
  assumes "create_aws_zip deflate cwd = Inr (cwd', out)"
  shows "\<exists>base st.
           remove_existing cwd = Inr base \<and>
           map_of base aws_zip = None \<and> map_of base aws_staging = None \<and>
           assemble_staging base = Inr (base @ [(aws_staging, Dir st)]) \<and>
           cwd' = base @ [(aws_zip, File (deflate (aws_entries (base @ [(aws_staging, Dir st)]))))] \<and>
           out = aws_lines (length (deflate (aws_entries (base @ [(aws_staging, Dir st)]))))"
proof -
  from assms obtain base where r: "remove_existing cwd = Inr base"
    unfolding create_aws_zip_def by (cases "remove_existing cwd") (simp_all only: sum.case, blast+)
  from assms obtain c2 where a: "assemble_staging base = Inr c2"
    unfolding create_aws_zip_def
    by (cases "assemble_staging base") (simp_all only: r sum.case, blast+)
  have b: "base = delete_entry aws_staging (delete_entry aws_zip cwd)"
    using r by (rule remove_existing_Inr)
  have z: "map_of base aws_zip = None" and s: "map_of base aws_staging = None"
    using aws_names_distinct by (simp_all add: b map_of_delete_entry)
  from assemble_staging_Inr [OF s a] obtain st where st: "c2 = base @ [(aws_staging, Dir st)]"
    by blast
  from create_aws_zip_from [OF r a [unfolded st] z s, of deflate] assms
  have "cwd' = base @ [(aws_zip, File (deflate (aws_entries (base @ [(aws_staging, Dir st)]))))]"
    and "out = aws_lines (length (deflate (aws_entries (base @ [(aws_staging, Dir st)]))))"
    by simp_all
  with r z s a st show ?thesis
    by blast
qed

section \<open>The archives\<close>

lemma source_dir_clean: "\<not> part_excluded source_dir"
  by (simp add: part_excluded_def source_dir_def exclude_patterns_def startswith_def)

lemma exclude_loop_source: "exclude_loop (source_dir # segs) = exclude_loop segs"
  using source_dir_clean by simp

lemma create_deployment_zip_archive:
  assumes "create_deployment_zip deflate cwd = Inr (cwd', out)"
  shows "map_of cwd' zip_path = Some (File (deflate (deployment_entries cwd)))"
  using create_deployment_zip_Inr [OF assms] by (simp add: map_of_put_entry)

lemma create_aws_zip_archive:
  assumes "remove_existing cwd = Inr base" "assemble_staging base = Inr stg"
  shows "\<exists>cwd' out. create_aws_zip deflate cwd = Inr (cwd', out)
           \<and> map_of cwd' aws_zip = Some (File (deflate (aws_entries stg)))"
proof -
  have b: "base = delete_entry aws_staging (delete_entry aws_zip cwd)"
    using assms(1) by (rule remove_existing_Inr)
  have z: "map_of base aws_zip = None" and s: "map_of base aws_staging = None"
    using aws_names_distinct by (simp_all add: b map_of_delete_entry)
  from assemble_staging_Inr [OF s assms(2)] obtain st where st: "stg = base @ [(aws_staging, Dir st)]"
    by blast
  have "map_of (base @ [(aws_zip, File y)]) aws_zip = Some (File y)" for y
    using z by (simp add: map_of_append map_add_def)
  with create_aws_zip_from [OF assms(1) assms(2) [unfolded st] z s, of deflate] show ?thesis
    unfolding st by (intro exI conjI) assumption+
qed

lemma Collect_insert_if:
  "{x \<in> insert a A. P x} = (if P a then insert a {x \<in> A. P x} else {x \<in> A. P x})"
  by auto

lemma create_deployment_zip_run:
  assumes "\<forall>es. map_of cwd zip_path \<noteq> Some (Dir es)"
  shows "\<exists>cwd' out. create_deployment_zip deflate cwd = Inr (cwd', out)
           \<and> map_of cwd' zip_path = Some (File (deflate (deployment_entries cwd)))"
proof -
  from create_deployment_zip_ok [OF assms, of deflate] obtain cwd' out
    where r: "create_deployment_zip deflate cwd = Inr (cwd', out)"
    by blast
  from create_deployment_zip_archive [OF r] r show ?thesis
    by blast
qed

lemma blocked_run:
  "map_of cwd zip_path = Some (Dir es) \<Longrightarrow> create_deployment_zip deflate cwd = Inl IsADirectoryError"
  by (simp add: create_deployment_zip_def unlink_existing_def path_exists_def os_remove_def)

text \<open>
  C3, as stated: whenever the files of the staging directory are exactly
  \<^verbatim>\<open>app/index.js\<close>, \<^verbatim>\<open>app/.git/config\<close> and \<^verbatim>\<open>app/.ebextensions/env.config\<close>, Builder B
  produces the archive of the scenario. It fails when a directory has the name of the
  archive: the staging directory is as the scenario says, and the run raises at
  \<^verbatim>\<open>unlink\<close> and produces no archive.
\<close>

theorem scenario_archive_counterexample:
  "map_of [(source_dir, scenario_tree), (zip_path, Dir [])] source_dir = Some scenario_tree
   \<and> valid_tree scenario_tree
   \<and> set (files_of scenario_tree) =
        {([''app'', ''index.js''], ''i''),
         ([''app'', ''.git'', ''config''], ''g''),
         ([''app'', ''.ebextensions'', ''env.config''], ''e'')}
   \<and> create_deployment_zip name_list [(source_dir, scenario_tree), (zip_path, Dir [])]
       = Inl IsADirectoryError"
proof (intro conjI)
  show "map_of [(source_dir, scenario_tree), (zip_path, Dir [])] source_dir = Some scenario_tree"
    by simp
  show "valid_tree scenario_tree"
    by (simp add: scenario_tree_def valid_name_def sep_def)
  show "set (files_of scenario_tree) =
        {([''app'', ''index.js''], ''i''),
         ([''app'', ''.git'', ''config''], ''g''),
         ([''app'', ''.ebextensions'', ''env.config''], ''e'')}"
    by (simp add: scenario_tree_def)
  have "map_of [(source_dir, scenario_tree), (zip_path, Dir [])] zip_path = Some (Dir [])"
    by (simp add: source_dir_def zip_path_def)
  then show "create_deployment_zip name_list [(source_dir, scenario_tree), (zip_path, Dir [])]
       = Inl IsADirectoryError"
    by (rule blocked_run)
qed

text \<open>
  C3, amended: when the files of the staging directory are exactly \<^verbatim>\<open>app/index.js\<close>,
  \<^verbatim>\<open>app/.git/config\<close> and \<^verbatim>\<open>app/.ebextensions/env.config\<close>, whatever their contents and
  the order of the listings, and no directory has the name of the archive, the run of
  Builder B ends and leaves an archive whose entries are exactly \<^verbatim>\<open>app/index.js\<close> and
  \<^verbatim>\<open>app/.ebextensions/env.config\<close>, with the contents of the files.
\<close>

theorem scenario_archive_contents:
  assumes "map_of cwd source_dir = Some tree"
    and "valid_tree tree"
    and "set (files_of tree) =
           {([''app'', ''index.js''], c1),
            ([''app'', ''.git'', ''config''], c2),
            ([''app'', ''.ebextensions'', ''env.config''], c3)}"
    and "\<forall>es. map_of cwd zip_path \<noteq> Some (Dir es)"
  shows "\<exists>cwd' out entries.
           create_deployment_zip deflate cwd = Inr (cwd', out)
           \<and> map_of cwd' zip_path = Some (File (deflate entries))
           \<and> entries = deployment_entries cwd
           \<and> set entries = {(''app/index.js'', c1), (''app/.ebextensions/env.config'', c3)}"
proof -
  let ?P = "\<lambda>(segs, c :: string). \<not> exclude_loop segs"
  have k1: "?P ([''app'', ''index.js''], c1)"
    by (simp add: part_excluded_def exclude_patterns_def startswith_def)
  have k2: "\<not> ?P ([''app'', ''.git'', ''config''], c2)"
    by (simp add: part_excluded_def exclude_patterns_def startswith_def)
  have k3: "?P ([''app'', ''.ebextensions'', ''env.config''], c3)"
    by (simp add: part_excluded_def exclude_patterns_def startswith_def allowed_dot_names_def)
  have "set (deployment_entries cwd) =
        (\<lambda>(segs, c). (slash_join segs, c)) ` {x \<in> set (files_of tree). ?P x}"
    by (simp add: deployment_entries_eq [OF assms(1,2)] source_dir_clean)
  also have "{x \<in> set (files_of tree). ?P x} =
        {([''app'', ''index.js''], c1), ([''app'', ''.ebextensions'', ''env.config''], c3)}"
    unfolding assms(3) by (simp only: Collect_insert_if k1 k2 k3 if_True if_False) simp
  also have "(\<lambda>(segs, c). (slash_join segs, c)) ` \<dots> =
        {(''app/index.js'', c1), (''app/.ebextensions/env.config'', c3)}"
    by simp
  finally have e: "set (deployment_entries cwd) =
      {(''app/index.js'', c1), (''app/.ebextensions/env.config'', c3)}" .
  from create_deployment_zip_run [OF assms(4), of deflate] obtain cwd' out
    where r: "create_deployment_zip deflate cwd = Inr (cwd', out)"
      and m: "map_of cwd' zip_path = Some (File (deflate (deployment_entries cwd)))"
    by blast
  show ?thesis
    by (intro exI conjI) (rule r, rule m, rule refl, rule e)
qed


lemma scenario_entries:
  assumes "map_of cwd source_dir = Some scenario_tree"
  shows "deployment_entries cwd =
         [(''app/index.js'', ''i''), (''app/.ebextensions/env.config'', ''e'')]"
proof -
  have b: "valid_tree scenario_tree"
    by (simp add: scenario_tree_def valid_name_def sep_def)
  have f: "files_of scenario_tree =
      [([''app'', ''index.js''], ''i''), ([''app'', ''.git'', ''config''], ''g''),
       ([''app'', ''.ebextensions'', ''env.config''], ''e'')]"
    by (simp add: scenario_tree_def)
  have k1: "\<not> exclude_loop [''app'', ''index.js'']"
    by (simp add: part_excluded_def exclude_patterns_def startswith_def)
  have k2: "exclude_loop [''app'', ''.git'', ''config'']"
    by (simp add: part_excluded_def exclude_patterns_def startswith_def)
  have k3: "\<not> exclude_loop [''app'', ''.ebextensions'', ''env.config'']"
    by (simp add: part_excluded_def exclude_patterns_def startswith_def allowed_dot_names_def)
  show ?thesis
    unfolding deployment_entries_eq [OF assms b] f using k1 k2 k3 by (simp add: source_dir_clean)
qed

theorem scenario_archive_contents_witness:
  "map_of [(zip_path, File ''old''), (source_dir, scenario_tree)] source_dir = Some scenario_tree
   \<and> valid_tree scenario_tree
   \<and> set (files_of scenario_tree) =
        {([''app'', ''index.js''], ''i''),
         ([''app'', ''.git'', ''config''], ''g''),
         ([''app'', ''.ebextensions'', ''env.config''], ''e'')}
   \<and> map_of [(zip_path, File ''old''), (source_dir, scenario_tree)] zip_path = Some (File ''old'')
   \<and> create_deployment_zip name_list [(zip_path, File ''old''), (source_dir, scenario_tree)] =
       Inr ([(source_dir, scenario_tree),
             (zip_path, File ''app/index.js;app/.ebextensions/env.config;'')],
            [''Added: app/index.js'', ''Added: app/.ebextensions/env.config''] @ summary_lines 42)"
proof -
  let ?W = "[(zip_path, File ''old''), (source_dir, scenario_tree)]"
  have a: "map_of ?W source_dir = Some scenario_tree"
    by (simp add: source_dir_def zip_path_def)
  have b: "valid_tree scenario_tree"
    by (simp add: scenario_tree_def valid_name_def sep_def)
  have c: "set (files_of scenario_tree) =
        {([''app'', ''index.js''], ''i''),
         ([''app'', ''.git'', ''config''], ''g''),
         ([''app'', ''.ebextensions'', ''env.config''], ''e'')}"
    by (simp add: scenario_tree_def)
  have d: "map_of ?W zip_path = Some (File ''old'')"
    by simp
  have d': "\<forall>es. map_of ?W zip_path \<noteq> Some (Dir es)"
    by (simp only: d) simp
  from scenario_archive_contents [OF a b c d', of name_list] obtain cwd' out
    where r: "create_deployment_zip name_list ?W = Inr (cwd', out)"
    by blast
  have n: "name_list [(''app/index.js'', ''i''), (''app/.ebextensions/env.config'', ''e'')] =
      ''app/index.js;app/.ebextensions/env.config;''"
    by (simp add: name_list_def)
  have l: "length ''app/index.js;app/.ebextensions/env.config;'' = 42"
    by simp
  have p: "put_entry zip_path (File y) ?W = [(source_dir, scenario_tree), (zip_path, File y)]" for y
    by (simp add: put_entry_def delete_entry_def source_dir_def zip_path_def)
  from create_deployment_zip_Inr [OF r] have
    "cwd' = [(source_dir, scenario_tree),
             (zip_path, File ''app/index.js;app/.ebextensions/env.config;'')]"
    "out = [''Added: app/index.js'', ''Added: app/.ebextensions/env.config''] @ summary_lines 42"
    unfolding scenario_entries [OF a] n l p by simp_all
  with r have e: "create_deployment_zip name_list ?W =
       Inr ([(source_dir, scenario_tree),
             (zip_path, File ''app/index.js;app/.ebextensions/env.config;'')],
            [''Added: app/index.js'', ''Added: app/.ebextensions/env.config''] @ summary_lines 42)"
    by simp
  show ?thesis
    by (intro conjI a b c d e)
qed

text \<open>
  C4, as stated: for every surviving file of the staging directory the archive produced
  has its entry. For Builder B it fails when a directory has the name of the archive: a
  file of the staging directory passes the exclusion predicate, and the run raises at
  \<^verbatim>\<open>unlink\<close>, so that no archive holds the file.
\<close>

theorem archive_round_trip_counterexample:
  "valid_tree round_trip_tree
   \<and> map_of [(source_dir, round_trip_tree), (zip_path, Dir [])] source_dir = Some round_trip_tree
   \<and> ([''public'', ''index.html''], ''h'') \<in> set (files_of round_trip_tree)
   \<and> \<not> should_exclude (slash_join [source_dir, ''public'', ''index.html''])
   \<and> create_deployment_zip name_list [(source_dir, round_trip_tree), (zip_path, Dir [])]
       = Inl IsADirectoryError"
proof (intro conjI)
  show "valid_tree round_trip_tree"
    by (simp add: round_trip_tree_def procfile_def valid_name_def sep_def)
  show "map_of [(source_dir, round_trip_tree), (zip_path, Dir [])] source_dir = Some round_trip_tree"
    by simp
  show "([''public'', ''index.html''], ''h'') \<in> set (files_of round_trip_tree)"
    by (simp add: round_trip_tree_def procfile_def)
  show "\<not> should_exclude (slash_join [source_dir, ''public'', ''index.html''])"
    by (simp add: should_exclude_def source_dir_def parts_def path_root_def sep_def
        part_excluded_def exclude_patterns_def startswith_def)
  have "map_of [(source_dir, round_trip_tree), (zip_path, Dir [])] zip_path = Some (Dir [])"
    by (simp add: source_dir_def zip_path_def)
  then show "create_deployment_zip name_list [(source_dir, round_trip_tree), (zip_path, Dir [])]
       = Inl IsADirectoryError"
    by (rule blocked_run)
qed

text \<open>
  C4, amended. Round trip, for names that are ASCII. The entries Builder B writes are,
  in the order of the walk, one for each file of the staging directory whose path the
  exclusion predicate passes, named by the file's path relative to
  \<^verbatim>\<open>clean-aws-deploy\<close> and holding its content, and nothing else; when no directory has
  the name of the archive, the run ends and leaves the archive made of them. The entries
  Builder A writes are one for each file of the staging directory
  \<^verbatim>\<open>aws-clean-deployment\<close> it assembled, named by the file's path relative to it, and
  nothing else; its run ends and leaves the archive made of them.
\<close>

theorem archive_round_trip:
  assumes "valid_tree tree"
    and "ascii_tree tree"
  shows "(map_of cwd source_dir = Some tree \<longrightarrow>
            deployment_entries cwd =
              map (\<lambda>(segs, c). (slash_join segs, c))
                (filter (\<lambda>(segs, c). \<not> should_exclude (slash_join (source_dir # segs)))
                  (files_of tree))
            \<and> ((\<forall>es. map_of cwd zip_path \<noteq> Some (Dir es)) \<longrightarrow>
                 (\<exists>cwd1 out1. create_deployment_zip deflate cwd = Inr (cwd1, out1)
                    \<and> map_of cwd1 zip_path = Some (File (deflate (deployment_entries cwd))))))
       \<and> (map_of stg aws_staging = Some tree \<longrightarrow>
            aws_entries stg = map (\<lambda>(segs, c). (slash_join segs, c)) (files_of tree)
            \<and> (remove_existing cwd = Inr base \<and> assemble_staging base = Inr stg \<longrightarrow>
                 (\<exists>cwd2 out2. create_aws_zip deflate cwd = Inr (cwd2, out2)
                    \<and> map_of cwd2 aws_zip = Some (File (deflate (aws_entries stg))))))"
proof (intro conjI impI)
  assume m: "map_of cwd source_dir = Some tree"
  have "filter (\<lambda>(segs, c). \<not> should_exclude (slash_join (source_dir # segs))) (files_of tree)
      = filter (\<lambda>(segs, c). \<not> exclude_loop (source_dir # segs)) (files_of tree)"
  proof (rule filter_cong [OF refl])
    fix x
    assume x: "x \<in> set (files_of tree)"
    obtain segs c where sc: "x = (segs, c)"
      by (cases x)
    from files_of_valid [OF assms(1)] x sc
    have "segs \<noteq> []" "\<forall>s \<in> set segs. valid_name s"
      by simp_all
    then show "(case x of (segs, c) \<Rightarrow> \<not> should_exclude (slash_join (source_dir # segs))) =
               (case x of (segs, c) \<Rightarrow> \<not> exclude_loop (source_dir # segs))"
      by (simp add: sc should_exclude_file)
  qed
  with deployment_entries_eq [OF m assms(1)] show "deployment_entries cwd =
      map (\<lambda>(segs, c). (slash_join segs, c))
        (filter (\<lambda>(segs, c). \<not> should_exclude (slash_join (source_dir # segs))) (files_of tree))"
    by simp
next
  assume "\<forall>es. map_of cwd zip_path \<noteq> Some (Dir es)"
  then show "\<exists>cwd1 out1. create_deployment_zip deflate cwd = Inr (cwd1, out1)
      \<and> map_of cwd1 zip_path = Some (File (deflate (deployment_entries cwd)))"
    by (rule create_deployment_zip_run)
next
  assume "map_of stg aws_staging = Some tree"
  then show "aws_entries stg = map (\<lambda>(segs, c). (slash_join segs, c)) (files_of tree)"
    using assms(1) by (rule aws_entries_eq)
next
  assume "remove_existing cwd = Inr base \<and> assemble_staging base = Inr stg"
  then show "\<exists>cwd2 out2. create_aws_zip deflate cwd = Inr (cwd2, out2)
      \<and> map_of cwd2 aws_zip = Some (File (deflate (aws_entries stg)))"
    using create_aws_zip_archive by blast
qed


lemma round_trip_assemble:
  "assemble_staging round_trip_cwd = Inr (round_trip_cwd @ [(aws_staging, round_trip_tree)])"
  by (simp add: assemble_staging_def makedirs_def round_trip_cwd_def round_trip_tree_def
      aws_staging_def source_dir_def essential_dirs_def files_to_copy_def copy_platform_def
      path_exists_def copytree_def copy2_def staged_def staging_put_def put_entry_def
      delete_entry_def)

theorem archive_round_trip_witness:
  "valid_tree round_trip_tree
   \<and> ascii_tree round_trip_tree
   \<and> map_of round_trip_cwd source_dir = Some round_trip_tree
   \<and> map_of round_trip_cwd zip_path = None
   \<and> deployment_entries round_trip_cwd =
        [(''Procfile'', ''web: npm start'' @ [CHR 0x0A]), (''public/index.html'', ''h'')]
   \<and> create_deployment_zip name_list round_trip_cwd =
        Inr (round_trip_cwd @ [(zip_path, File ''Procfile;public/index.html;'')],
             [''Added: Procfile'', ''Added: public/index.html''] @ summary_lines 27)
   \<and> remove_existing round_trip_cwd = Inr round_trip_cwd
   \<and> assemble_staging round_trip_cwd = Inr (round_trip_cwd @ [(aws_staging, round_trip_tree)])
   \<and> map_of (round_trip_cwd @ [(aws_staging, round_trip_tree)]) aws_staging = Some round_trip_tree
   \<and> aws_entries (round_trip_cwd @ [(aws_staging, round_trip_tree)]) =
        [(''Procfile'', ''web: npm start'' @ [CHR 0x0A]), (''public/index.html'', ''h'')]
   \<and> create_aws_zip name_list round_trip_cwd =
        Inr (round_trip_cwd @ [(aws_zip, File ''Procfile;public/index.html;'')], aws_lines 27)"
proof -
  let ?stg = "round_trip_cwd @ [(aws_staging, round_trip_tree)]"
  let ?E = "[(''Procfile'', ''web: npm start'' @ [CHR 0x0A]), (''public/index.html'', ''h'')]"
  have v: "valid_tree round_trip_tree"
    by (simp add: round_trip_tree_def procfile_def valid_name_def sep_def)
  have asc: "ascii_tree round_trip_tree"
    by (simp add: round_trip_tree_def procfile_def ascii_name_def)
  have m: "map_of round_trip_cwd source_dir = Some round_trip_tree"
    by (simp add: round_trip_cwd_def source_dir_def)
  have z: "map_of round_trip_cwd zip_path = None"
    by (simp add: round_trip_cwd_def source_dir_def zip_path_def)
  have z': "\<forall>es. map_of round_trip_cwd zip_path \<noteq> Some (Dir es)"
    by (simp add: z)
  have r: "remove_existing round_trip_cwd = Inr round_trip_cwd"
    by (simp add: remove_existing_def path_exists_def round_trip_cwd_def source_dir_def
        aws_zip_def aws_staging_def)
  have s: "map_of ?stg aws_staging = Some round_trip_tree"
    by (simp add: round_trip_cwd_def source_dir_def aws_staging_def)
  have f: "files_of round_trip_tree =
      [([''Procfile''], ''web: npm start'' @ [CHR 0x0A]), ([''public'', ''index.html''], ''h'')]"
    by (simp add: round_trip_tree_def procfile_def)
  have e1: "\<not> should_exclude (slash_join [source_dir, ''Procfile''])"
    by (simp add: should_exclude_def source_dir_def parts_def path_root_def sep_def
        part_excluded_def exclude_patterns_def startswith_def)
  have e2: "\<not> should_exclude (slash_join [source_dir, ''public'', ''index.html''])"
    by (simp add: should_exclude_def source_dir_def parts_def path_root_def sep_def
        part_excluded_def exclude_patterns_def startswith_def)
  note t = archive_round_trip [OF v asc, of round_trip_cwd name_list ?stg round_trip_cwd]
  note tb = mp [OF t [THEN conjunct1] m]
  note ta = mp [OF t [THEN conjunct2] s]
  have b: "deployment_entries round_trip_cwd = ?E"
    using tb [THEN conjunct1] e1 e2 by (simp add: f)
  have a: "aws_entries ?stg = ?E"
    using ta [THEN conjunct1] by (simp add: f)
  have n: "name_list ?E = ''Procfile;public/index.html;''"
    by (simp add: name_list_def)
  have l: "length ''Procfile;public/index.html;'' = 27"
    by simp
  from mp [OF tb [THEN conjunct2] z'] obtain cwd1 out1
    where r1: "create_deployment_zip name_list round_trip_cwd = Inr (cwd1, out1)"
    by blast
  have p: "put_entry zip_path (File y) round_trip_cwd = round_trip_cwd @ [(zip_path, File y)]" for y
    by (simp add: put_entry_def delete_entry_absent [OF z])
  from create_deployment_zip_Inr [OF r1] have
    "cwd1 = round_trip_cwd @ [(zip_path, File ''Procfile;public/index.html;'')]"
    "out1 = [''Added: Procfile'', ''Added: public/index.html''] @ summary_lines 27"
    unfolding b n l p by simp_all
  with r1 have runB: "create_deployment_zip name_list round_trip_cwd =
        Inr (round_trip_cwd @ [(zip_path, File ''Procfile;public/index.html;'')],
             [''Added: Procfile'', ''Added: public/index.html''] @ summary_lines 27)"
    by simp
  have za: "map_of round_trip_cwd aws_zip = None" and sa: "map_of round_trip_cwd aws_staging = None"
    by (simp_all add: round_trip_cwd_def source_dir_def aws_zip_def aws_staging_def)
  have asm: "assemble_staging round_trip_cwd =
      Inr (round_trip_cwd @ [(aws_staging, Dir [(''public'', Dir [(''index.html'', File ''h'')]),
        (''Procfile'', procfile)])])"
    using round_trip_assemble by (simp only: round_trip_tree_def)
  have runA: "create_aws_zip name_list round_trip_cwd =
        Inr (round_trip_cwd @ [(aws_zip, File ''Procfile;public/index.html;'')], aws_lines 27)"
    using create_aws_zip_from [OF r asm za sa, of name_list] a
    by (simp only: round_trip_tree_def [symmetric] n l)
  show ?thesis
    by (intro conjI v asc m z b runB r round_trip_assemble s a runA)
qed

lemma exclude_loop_take: "exclude_loop (take k segs) \<Longrightarrow> exclude_loop segs"
  unfolding exclude_loop_iff using set_take_subset [of k segs] by blast

lemma entry_names:
  assumes "map_of cwd source_dir = Some tree" "valid_tree tree"
    and "arc \<in> fst ` set (deployment_entries cwd)"
  shows "\<exists>segs c. (segs, c) \<in> set (files_of tree) \<and> \<not> exclude_loop segs \<and> arc = slash_join segs"
  using assms(3) unfolding deployment_entries_eq [OF assms(1,2)]
  by (auto simp: source_dir_clean)

text \<open>
  C5. One predicate prunes and filters. Take a file of the staging directory and one of
  the directories above it, below the staging root, whose path the predicate excludes.
  Then the walk does not keep that directory (the pruning test is the negation of the
  predicate on the joined path), the predicate excludes the path of the file as well, and
  no entry of the archive is named by the file's relative path.
\<close>

theorem pruned_ancestor_excludes_file:
  assumes "map_of cwd source_dir = Some tree"
    and "valid_tree tree"
    and "(segs, c) \<in> set (files_of tree)"
    and "0 < k" and "k < length segs"
    and "should_exclude (slash_join (source_dir # take k segs))"
  shows "\<not> keep_dir (slash_join (source_dir # take (k - 1) segs)) (segs ! (k - 1))
       \<and> should_exclude (slash_join (source_dir # segs))
       \<and> slash_join segs \<notin> fst ` set (deployment_entries cwd)"
proof -
  have v: "segs \<noteq> []" "\<forall>s \<in> set segs. valid_name s"
    using files_of_valid [OF assms(2,3)] by simp_all
  have tk: "take k segs = take (k - 1) segs @ [segs ! (k - 1)]"
    using assms(4,5) take_Suc_conv_app_nth [of "k - 1" segs] by simp
  have vt: "\<forall>s \<in> set (take (k - 1) segs). valid_name s"
    using v(2) set_take_subset [of "k - 1" segs] by blast
  have vn: "valid_name (segs ! (k - 1))"
    using v(2) assms(5) by simp
  have j: "join (slash_join (source_dir # take (k - 1) segs)) (segs ! (k - 1)) =
        slash_join (source_dir # take k segs)"
    using join_below [OF vt vn] by (simp add: tk)
  have pruned: "\<not> keep_dir (slash_join (source_dir # take (k - 1) segs)) (segs ! (k - 1))"
    using assms(6) unfolding keep_dir_def j by simp
  have vk: "take k segs \<noteq> []" "\<forall>s \<in> set (take k segs). valid_name s"
    using assms(4) v set_take_subset [of k segs] by auto
  have "exclude_loop (source_dir # take k segs)"
    using assms(6) should_exclude_file [OF vk] by simp
  then have "exclude_loop (take k segs)"
    by (simp add: source_dir_clean)
  then have ex: "exclude_loop segs"
    by (rule exclude_loop_take)
  then have fex: "should_exclude (slash_join (source_dir # segs))"
    using should_exclude_file [OF v] by (simp add: source_dir_clean)
  have "slash_join segs \<notin> fst ` set (deployment_entries cwd)"
  proof
    assume "slash_join segs \<in> fst ` set (deployment_entries cwd)"
    from entry_names [OF assms(1,2) this] obtain segs' c'
      where m: "(segs', c') \<in> set (files_of tree)" and n: "\<not> exclude_loop segs'"
        and e: "slash_join segs = slash_join segs'"
      by blast
    have v': "segs' \<noteq> []" "\<forall>s \<in> set segs'. valid_name s"
      using files_of_valid [OF assms(2) m] by simp_all
    have "segs = segs'"
      using v v' e by (intro slash_join_inj) simp_all
    with n ex show False
      by simp
  qed
  with pruned fex show ?thesis
    by simp
qed


theorem pruned_ancestor_excludes_file_witness:
  "map_of [(source_dir, scenario_tree)] source_dir = Some scenario_tree
   \<and> valid_tree scenario_tree
   \<and> ([''app'', ''.git'', ''config''], ''g'') \<in> set (files_of scenario_tree)
   \<and> should_exclude (slash_join (source_dir # take 2 [''app'', ''.git'', ''config'']))
   \<and> \<not> keep_dir (slash_join (source_dir # take (2 - 1) [''app'', ''.git'', ''config'']))
          ([''app'', ''.git'', ''config''] ! (2 - 1))
   \<and> slash_join [''app'', ''.git'', ''config'']
         \<notin> fst ` set (deployment_entries [(source_dir, scenario_tree)])"
proof -
  have a: "map_of [(source_dir, scenario_tree)] source_dir = Some scenario_tree"
    by simp
  have b: "valid_tree scenario_tree"
    by (simp add: scenario_tree_def valid_name_def sep_def)
  have c: "([''app'', ''.git'', ''config''], ''g'') \<in> set (files_of scenario_tree)"
    by (simp add: scenario_tree_def)
  have k0: "0 < (2::nat)" and k1: "(2::nat) < length [''app'', ''.git'', ''config'']"
    by simp_all
  have d: "should_exclude (slash_join (source_dir # take 2 [''app'', ''.git'', ''config'']))"
    by (simp add: should_exclude_def source_dir_def parts_def path_root_def sep_def
        part_excluded_def exclude_patterns_def startswith_def)
  note t = pruned_ancestor_excludes_file [OF a b c k0 k1 d]
  show ?thesis
    by (intro conjI a b c d t [THEN conjunct1] t [THEN conjunct2, THEN conjunct2])
qed

text \<open>
  C10, as stated: whenever the staging directory is missing, Builder B ends without an
  exception. It fails when a directory has the name of the archive: the existence check
  passes and \<^verbatim>\<open>unlink\<close> raises on a directory, before any walk.
\<close>

theorem missing_staging_counterexample:
  "map_of [(zip_path, Dir [])] source_dir = None
   \<and> create_deployment_zip (\<lambda>entries. concat (map fst entries)) [(zip_path, Dir [])]
       = Inl IsADirectoryError"
  by (simp add: create_deployment_zip_def unlink_existing_def path_exists_def os_remove_def
      zip_path_def source_dir_def)

lemma unlink_existing_file:
  assumes "\<forall>es. map_of cwd zip_path \<noteq> Some (Dir es)"
  shows "unlink_existing cwd = Inr (delete_entry zip_path cwd)"
proof (cases "map_of cwd zip_path")
  case None
  then show ?thesis
    by (simp add: unlink_existing_def path_exists_def delete_entry_absent)
next
  case (Some x)
  with assms obtain c where "x = File c"
    by (cases x) auto
  with Some show ?thesis
    by (simp add: unlink_existing_def path_exists_def os_remove_def)
qed

text \<open>
  C10, amended: when the staging directory is missing and no directory has the name of
  the archive, the walk yields nothing, no entry is written, and Builder B ends without
  an exception, leaving an archive of no entries and printing only the three closing
  messages.
\<close>

theorem missing_staging_empty_archive:
  assumes "map_of cwd source_dir = None"
    and "\<forall>es. map_of cwd zip_path \<noteq> Some (Dir es)"
  shows "walk_from keep_dir source_dir cwd = []
       \<and> deployment_entries cwd = []
       \<and> create_deployment_zip deflate cwd =
           Inr (put_entry zip_path (File (deflate [])) cwd, summary_lines (length (deflate [])))"
proof -
  have w: "walk_from keep_dir source_dir cwd = []"
    using assms(1) by (simp add: walk_from_def)
  then have e: "deployment_entries cwd = []"
    by (simp add: deployment_entries_def)
  obtain cwd' out where r: "create_deployment_zip deflate cwd = Inr (cwd', out)"
    using create_deployment_zip_ok [OF assms(2)] by blast
  from create_deployment_zip_Inr [OF r] have
    "cwd' = put_entry zip_path (File (deflate [])) cwd"
    "out = summary_lines (length (deflate []))"
    by (simp_all add: e)
  with r w e show ?thesis
    by simp
qed

theorem missing_staging_empty_archive_witness:
  "map_of [(''README.md'', File ''r'')] source_dir = None
   \<and> map_of [(''README.md'', File ''r'')] zip_path = None
   \<and> walk_from keep_dir source_dir [(''README.md'', File ''r'')] = []
   \<and> create_deployment_zip (\<lambda>entries. concat (map fst entries)) [(''README.md'', File ''r'')] =
       Inr ([(''README.md'', File ''r''), (zip_path, File [])], summary_lines 0)"
proof -
  let ?cwd = "[(''README.md'', File ''r'')]"
  have a: "map_of ?cwd source_dir = None"
    by (simp add: source_dir_def)
  have b: "map_of ?cwd zip_path = None"
    by (simp add: zip_path_def)
  have b': "\<forall>es. map_of ?cwd zip_path \<noteq> Some (Dir es)"
    by (simp add: b)
  have p: "put_entry zip_path (File []) ?cwd = [(''README.md'', File ''r''), (zip_path, File [])]"
    by (simp add: put_entry_def delete_entry_def zip_path_def)
  note t = missing_staging_empty_archive [OF a b', of "\<lambda>entries. concat (map fst entries)"]
  show ?thesis
    using a b t by (simp add: p)
qed

section \<open>Running the builders\<close>

lemma filter_name_absent:
  "map_of cwd n = None \<Longrightarrow> filter (\<lambda>(m, x). m = n) cwd = []"
  by (induction cwd) (auto split: if_splits)

text \<open>
  C6. A run of Builder A that ends, run again on the directory it left, ends again with
  the same directory and output: there is exactly one entry with the archive's name, and
  no staging directory. Before anything else a run removes the archive and the staging
  directory left by an earlier run. The deletions are guarded: where the targets are
  missing, the guarded step changes nothing and raises nothing, whereas the bare
  \<^verbatim>\<open>os.remove\<close> and \<^verbatim>\<open>shutil.rmtree\<close> would raise; the same holds of the guarded
  \<^verbatim>\<open>unlink\<close> of Builder B. Where an archive file of an earlier run exists, the guarded
  \<^verbatim>\<open>unlink\<close> of Builder B deletes it, and the run of Builder B ends with exactly one
  entry of the archive's name.
\<close>

theorem aws_builder_rerun:
  assumes "create_aws_zip deflate cwd = Inr (cwd', out)"
  shows "create_aws_zip deflate cwd' = Inr (cwd', out)
       \<and> length (filter (\<lambda>(n, x). n = aws_zip) cwd') = 1
       \<and> \<not> path_exists cwd' aws_staging
       \<and> (\<exists>base. remove_existing cwd = Inr base
             \<and> \<not> path_exists base aws_zip \<and> \<not> path_exists base aws_staging)
       \<and> (\<not> path_exists c aws_zip \<and> \<not> path_exists c aws_staging \<longrightarrow>
             remove_existing c = Inr c
             \<and> os_remove aws_zip c = Inl FileNotFoundError
             \<and> rmtree aws_staging c = Inl FileNotFoundError)
       \<and> (\<not> path_exists c zip_path \<longrightarrow>
             unlink_existing c = Inr c \<and> os_remove zip_path c = Inl FileNotFoundError)
       \<and> (map_of c zip_path = Some (File old) \<longrightarrow>
             unlink_existing c = Inr (delete_entry zip_path c)
             \<and> \<not> path_exists (delete_entry zip_path c) zip_path
             \<and> (\<exists>cwd1 out1. create_deployment_zip deflate c = Inr (cwd1, out1)
                  \<and> length (filter (\<lambda>(n, x). n = zip_path) cwd1) = 1))"
proof -
  from create_aws_zip_Inr [OF assms] obtain base st where
    r: "remove_existing cwd = Inr base"
    and z: "map_of base aws_zip = None"
    and s: "map_of base aws_staging = None"
    and a: "assemble_staging base = Inr (base @ [(aws_staging, Dir st)])"
    and c': "cwd' = base @ [(aws_zip, File (deflate (aws_entries (base @ [(aws_staging, Dir st)]))))]"
    and o: "out = aws_lines (length (deflate (aws_entries (base @ [(aws_staging, Dir st)]))))"
    by blast
  have r2: "remove_existing cwd' = Inr base"
    unfolding c' using z s by (rule remove_existing_archive)
  have again: "create_aws_zip deflate cwd' = Inr (cwd', out)"
    using create_aws_zip_from [OF r2 a z s, of deflate] by (simp only: c' o)
  have one: "length (filter (\<lambda>(n, x). n = aws_zip) cwd') = 1"
    by (simp add: c' filter_name_absent [OF z])
  have gone: "\<not> path_exists cwd' aws_staging"
    using s aws_names_distinct by (simp add: c' path_exists_def map_of_append map_add_def)
  have pre: "\<exists>base. remove_existing cwd = Inr base
             \<and> \<not> path_exists base aws_zip \<and> \<not> path_exists base aws_staging"
    using r z s by (simp add: path_exists_def)
  have guardA: "\<not> path_exists c aws_zip \<and> \<not> path_exists c aws_staging \<longrightarrow>
             remove_existing c = Inr c
             \<and> os_remove aws_zip c = Inl FileNotFoundError
             \<and> rmtree aws_staging c = Inl FileNotFoundError"
    by (simp add: path_exists_def remove_existing_absent os_remove_def rmtree_def)
  have guardB: "\<not> path_exists c zip_path \<longrightarrow>
             unlink_existing c = Inr c \<and> os_remove zip_path c = Inl FileNotFoundError"
    by (simp add: path_exists_def unlink_existing_def os_remove_def)
  have deleteB: "map_of c zip_path = Some (File old) \<longrightarrow>
             unlink_existing c = Inr (delete_entry zip_path c)
             \<and> \<not> path_exists (delete_entry zip_path c) zip_path
             \<and> (\<exists>cwd1 out1. create_deployment_zip deflate c = Inr (cwd1, out1)
                  \<and> length (filter (\<lambda>(n, x). n = zip_path) cwd1) = 1)"
  proof (intro impI conjI)
    assume m: "map_of c zip_path = Some (File old)"
    then have nd: "\<forall>es. map_of c zip_path \<noteq> Some (Dir es)"
      by simp
    show "unlink_existing c = Inr (delete_entry zip_path c)"
      using nd by (rule unlink_existing_file)
    have ab: "map_of (delete_entry zip_path c) zip_path = None"
      by (simp add: map_of_delete_entry)
    then show "\<not> path_exists (delete_entry zip_path c) zip_path"
      by (simp add: path_exists_def)
    from create_deployment_zip_ok [OF nd, of deflate] obtain cwd1 out1
      where r1: "create_deployment_zip deflate c = Inr (cwd1, out1)"
      by blast
    from create_deployment_zip_Inr [OF r1]
    have "cwd1 = put_entry zip_path (File (deflate (deployment_entries c))) c"
      by (rule conjunct1)
    then have "length (filter (\<lambda>(n, x). n = zip_path) cwd1) = 1"
      by (simp add: put_entry_def filter_name_absent [OF ab])
    with r1 show "\<exists>cwd1 out1. create_deployment_zip deflate c = Inr (cwd1, out1)
                  \<and> length (filter (\<lambda>(n, x). n = zip_path) cwd1) = 1"
      by blast
  qed
  show ?thesis
    by (intro conjI again one gone pre guardA guardB deleteB)
qed

lemma rerun_first:
  "create_aws_zip name_list rerun_cwd =
     Inr ([(''client'', Dir [(''app.js'', File ''x'')]), (aws_zip, File ''Procfile;client/app.js;'')],
          aws_lines 23)"
proof -
  let ?base = "[(''client'', Dir [(''app.js'', File ''x'')])]"
  let ?st = "[(''client'', Dir [(''app.js'', File ''x'')]), (''Procfile'', procfile)]"
  have r: "remove_existing rerun_cwd = Inr ?base"
    by (simp add: remove_existing_def path_exists_def rerun_cwd_def os_remove_def rmtree_def
        delete_entry_def aws_zip_def aws_staging_def)
  have a: "assemble_staging ?base = Inr (?base @ [(aws_staging, Dir ?st)])"
    by (simp add: assemble_staging_def makedirs_def aws_staging_def essential_dirs_def
        files_to_copy_def copy_platform_def path_exists_def copytree_def copy2_def staged_def
        staging_put_def put_entry_def delete_entry_def)
  have z: "map_of ?base aws_zip = None" and s: "map_of ?base aws_staging = None"
    by (simp_all add: aws_zip_def aws_staging_def)
  have e: "aws_entries (?base @ [(aws_staging, Dir ?st)]) =
      [(''Procfile'', ''web: npm start'' @ [CHR 0x0A]), (''client/app.js'', ''x'')]"
    by (simp add: aws_entries_def walk_from_def aws_staging_def procfile_def join_def
        startswith_def sep_def relpath_def components_def)
  have n: "name_list [(''Procfile'', ''web: npm start'' @ [CHR 0x0A]), (''client/app.js'', ''x'')] =
      ''Procfile;client/app.js;''"
    by (simp add: name_list_def)
  have l: "length ''Procfile;client/app.js;'' = 23"
    by simp
  show ?thesis
    using create_aws_zip_from [OF r a z s, of name_list] unfolding e n l by simp
qed


theorem aws_builder_rerun_witness:
  "create_aws_zip name_list rerun_cwd =
     Inr ([(''client'', Dir [(''app.js'', File ''x'')]), (aws_zip, File ''Procfile;client/app.js;'')],
          aws_lines 23)
   \<and> create_aws_zip name_list
        [(''client'', Dir [(''app.js'', File ''x'')]), (aws_zip, File ''Procfile;client/app.js;'')] =
     Inr ([(''client'', Dir [(''app.js'', File ''x'')]), (aws_zip, File ''Procfile;client/app.js;'')],
          aws_lines 23)
   \<and> length (filter (\<lambda>(n, x). n = aws_zip)
        [(''client'', Dir [(''app.js'', File ''x'')]), (aws_zip, File ''Procfile;client/app.js;'')]) = 1
   \<and> \<not> path_exists [] aws_zip \<and> \<not> path_exists [] aws_staging \<and> \<not> path_exists [] zip_path
   \<and> remove_existing [] = Inr []
   \<and> unlink_existing [] = Inr []
   \<and> map_of [(''notes.txt'', File ''n''), (zip_path, File ''old'')] zip_path = Some (File ''old'')
   \<and> unlink_existing [(''notes.txt'', File ''n''), (zip_path, File ''old'')] =
       Inr [(''notes.txt'', File ''n'')]
   \<and> \<not> path_exists [(''notes.txt'', File ''n'')] zip_path
   \<and> create_deployment_zip name_list [(''notes.txt'', File ''n''), (zip_path, File ''old'')] =
       Inr ([(''notes.txt'', File ''n''), (zip_path, File [])], summary_lines 0)
   \<and> length (filter (\<lambda>(n, x). n = zip_path)
        [(''notes.txt'', File ''n''), (zip_path, File [])]) = 1"
proof -
  let ?c = "[(''notes.txt'', File ''n''), (zip_path, File ''old'')]"
  note t = aws_builder_rerun [OF rerun_first, of "[]"]
  have p: "\<not> path_exists [] aws_zip" "\<not> path_exists [] aws_staging" "\<not> path_exists [] zip_path"
    by (simp_all add: path_exists_def)
  have g1: "remove_existing [] = Inr []"
    using t p by blast
  have g2: "unlink_existing [] = Inr []"
    using t p by blast
  have m: "map_of ?c zip_path = Some (File ''old'')"
    by (simp add: zip_path_def)
  have d: "delete_entry zip_path ?c = [(''notes.txt'', File ''n'')]"
    by (simp add: delete_entry_def zip_path_def)
  note u = aws_builder_rerun [OF rerun_first, of ?c "''old''",
      THEN conjunct2, THEN conjunct2, THEN conjunct2, THEN conjunct2, THEN conjunct2,
      THEN conjunct2, THEN mp, OF m]
  have u1: "unlink_existing ?c = Inr [(''notes.txt'', File ''n'')]"
    using u [THEN conjunct1] unfolding d .
  have u2: "\<not> path_exists [(''notes.txt'', File ''n'')] zip_path"
    using u [THEN conjunct2, THEN conjunct1] unfolding d .
  from u [THEN conjunct2, THEN conjunct2] obtain cwd1 out1
    where r1: "create_deployment_zip name_list ?c = Inr (cwd1, out1)"
    by blast
  have e: "deployment_entries ?c = []"
    by (simp add: deployment_entries_def walk_from_def source_dir_def zip_path_def)
  have q: "put_entry zip_path (File y) ?c = [(''notes.txt'', File ''n''), (zip_path, File y)]" for y
    by (simp add: put_entry_def delete_entry_def zip_path_def)
  from create_deployment_zip_Inr [OF r1] have
    "cwd1 = [(''notes.txt'', File ''n''), (zip_path, File [])]" "out1 = summary_lines 0"
    unfolding e q by (simp_all add: name_list_def)
  with r1 have u3: "create_deployment_zip name_list ?c =
       Inr ([(''notes.txt'', File ''n''), (zip_path, File [])], summary_lines 0)"
    by simp
  have u4: "length (filter (\<lambda>(n, x). n = zip_path)
        [(''notes.txt'', File ''n''), (zip_path, File [])]) = 1"
    by (simp add: zip_path_def)
  show ?thesis
    by (intro conjI rerun_first t [THEN conjunct1] t [THEN conjunct2, THEN conjunct1] p g1 g2
        m u1 u2 u3 u4)
qed

section \<open>The output of the builders\<close>

lemma tenths_mb_nearest:
  "2 * 1048576 * tenths_mb n \<le> 20 * n + 1048576 \<and> 20 * n \<le> 2 * 1048576 * tenths_mb n + 1048576"
proof -
  define q where "q = (10 * n) div 1048576"
  define r where "r = (10 * n) mod 1048576"
  have d: "10 * n = q * 1048576 + r"
    unfolding q_def r_def by (rule div_mult_mod_eq [symmetric])
  have b: "r < 1048576"
    unfolding r_def by (rule mod_less_divisor) simp
  have t: "tenths_mb n = (if r < 524288 then q else if r > 524288 then q + 1
      else if even q then q else q + 1)"
    unfolding tenths_mb_def q_def r_def Let_def by (rule refl)
  show ?thesis
    using d b unfolding t by (auto split: if_splits)
qed

lemma fmt_mb_small: "fmt_mb 9 = ''0.0''" "fmt_mb 26 = ''0.0''"
  by (simp_all add: fmt_mb_def tenths_mb_def Let_def show_nat.simps digit_def)

lemma empty_run:
  "create_aws_zip name_list [] = Inr ([(aws_zip, File ''Procfile;'')], aws_lines 9)"
proof -
  have r: "remove_existing [] = Inr []"
    by (simp add: remove_existing_def path_exists_def)
  have a: "assemble_staging [] = Inr ([] @ [(aws_staging, Dir [(''Procfile'', procfile)])])"
    by (simp add: assemble_staging_def makedirs_def essential_dirs_def aws_staging_def
        files_to_copy_def copy_platform_def path_exists_def staging_put_def put_entry_def
        delete_entry_def)
  have e: "aws_entries ([] @ [(aws_staging, Dir [(''Procfile'', procfile)])]) =
      [(''Procfile'', ''web: npm start'' @ [CHR 0x0A])]"
    by (simp add: aws_entries_def walk_from_def aws_staging_def procfile_def join_def
        startswith_def sep_def relpath_def components_def)
  have n: "name_list [(''Procfile'', ''web: npm start'' @ [CHR 0x0A])] = ''Procfile;''"
    by (simp add: name_list_def)
  have l: "length ''Procfile;'' = 9"
    by simp
  show ?thesis
    using create_aws_zip_from [OF r a, of name_list] unfolding e n l by simp
qed

lemma log_entries:
  "deployment_entries [(source_dir, log_tree)] = [(''cache.tmp'', ''t''), (''logs/server.log'', ''l'')]"
proof -
  have a: "map_of [(source_dir, log_tree)] source_dir = Some log_tree"
    by simp
  have b: "valid_tree log_tree"
    by (simp add: log_tree_def valid_name_def sep_def)
  have f: "files_of log_tree = [([''cache.tmp''], ''t''), ([''logs'', ''server.log''], ''l'')]"
    by (simp add: log_tree_def)
  have k1: "\<not> exclude_loop [''cache.tmp'']"
    by (simp add: part_excluded_def exclude_patterns_def startswith_def)
  have k2: "\<not> exclude_loop [''logs'', ''server.log'']"
    by (simp add: part_excluded_def exclude_patterns_def startswith_def)
  show ?thesis
    unfolding deployment_entries_eq [OF a b] f using k1 k2 by (simp add: source_dir_clean)
qed

lemma log_run:
  "create_deployment_zip name_list [(source_dir, log_tree)] =
     Inr ([(source_dir, log_tree), (zip_path, File ''cache.tmp;logs/server.log;'')],
          [''Added: cache.tmp'', ''Added: logs/server.log''] @ summary_lines 26)"
proof -
  have z: "\<forall>es. map_of [(source_dir, log_tree)] zip_path \<noteq> Some (Dir es)"
    by (simp add: source_dir_def zip_path_def)
  from create_deployment_zip_ok [OF z, of name_list] obtain cwd' out
    where r: "create_deployment_zip name_list [(source_dir, log_tree)] = Inr (cwd', out)"
    by blast
  have n: "name_list [(''cache.tmp'', ''t''), (''logs/server.log'', ''l'')] = ''cache.tmp;logs/server.log;''"
    by (simp add: name_list_def)
  have l: "length ''cache.tmp;logs/server.log;'' = 26"
    by simp
  have p: "put_entry zip_path (File y) [(source_dir, log_tree)] =
      [(source_dir, log_tree), (zip_path, File y)]" for y
    by (simp add: put_entry_def delete_entry_def source_dir_def zip_path_def)
  from create_deployment_zip_Inr [OF r] have
    "cwd' = [(source_dir, log_tree), (zip_path, File ''cache.tmp;logs/server.log;'')]"
    "out = [''Added: cache.tmp'', ''Added: logs/server.log''] @ summary_lines 26"
    unfolding log_entries n l p by simp_all
  with r show ?thesis
    by simp
qed

text \<open>
  C7, as stated: each builder prints one line for each path it puts in the archive. It
  fails for Builder A, whose loop over the walk has no \<^verbatim>\<open>print\<close>: run in an empty
  directory it archives the Procfile and prints its four fixed messages, none of which
  names the Procfile.
\<close>

theorem per_path_lines_counterexample:
  "assemble_staging [] = Inr [(aws_staging, Dir [(''Procfile'', procfile)])]
   \<and> aws_entries [(aws_staging, Dir [(''Procfile'', procfile)])] =
        [(''Procfile'', ''web: npm start'' @ [CHR 0x0A])]
   \<and> create_aws_zip name_list [] = Inr ([(aws_zip, File ''Procfile;'')], aws_lines 9)
   \<and> length (aws_lines 9) = 4
   \<and> \<not> list_ex (\<lambda>line. str_in ''Procfile'' line) (aws_lines 9)"
proof (intro conjI)
  show "assemble_staging [] = Inr [(aws_staging, Dir [(''Procfile'', procfile)])]"
    by (simp add: assemble_staging_def makedirs_def essential_dirs_def aws_staging_def
        files_to_copy_def copy_platform_def path_exists_def staging_put_def put_entry_def
        delete_entry_def)
  show "aws_entries [(aws_staging, Dir [(''Procfile'', procfile)])] =
        [(''Procfile'', ''web: npm start'' @ [CHR 0x0A])]"
    by (simp add: aws_entries_def walk_from_def aws_staging_def procfile_def join_def
        startswith_def sep_def relpath_def components_def)
  show "create_aws_zip name_list [] = Inr ([(aws_zip, File ''Procfile;'')], aws_lines 9)"
    by (rule empty_run)
  show "length (aws_lines 9) = 4"
    by (simp add: aws_lines_def)
  show "\<not> list_ex (\<lambda>line. str_in ''Procfile'' line) (aws_lines 9)"
    by (simp add: aws_lines_def fmt_mb_small emoji_rocket_def emoji_check_def
        emoji_package_def emoji_target_def aws_zip_def)
qed

text \<open>
  C7, amended: Builder B prints one line \<^verbatim>\<open>Added: <path>\<close> for each entry of the
  archive, in order, and then its three closing messages; Builder A prints no line for
  a path, only its opening message and three closing messages. In both, the second of
  the closing messages is the size of the archive in megabytes with one decimal: the
  number of tenths printed is the nearest to the size in bytes over \<open>2 ^ 20\<close>.
\<close>

theorem builders_output:
  "(create_deployment_zip deflate cwd = Inr (cwd', out) \<longrightarrow>
      out = map (\<lambda>(arcname, c). ''Added: '' @ arcname) (deployment_entries cwd) @
            summary_lines (length (deflate (deployment_entries cwd)))
      \<and> map_of cwd' zip_path = Some (File (deflate (deployment_entries cwd))))
   \<and> (create_aws_zip deflate cwd = Inr (cwd', out) \<longrightarrow>
        (\<exists>entries. map_of cwd' aws_zip = Some (File (deflate entries))
           \<and> out = aws_lines (length (deflate entries))))
   \<and> summary_lines n ! 1 = emoji_package @ '' Size: '' @ fmt_mb n @ '' MB''
   \<and> aws_lines n ! 2 = emoji_package @ '' Size: '' @ fmt_mb n @ '' MB''
   \<and> fmt_mb n = show_nat (tenths_mb n div 10) @ ''.'' @ show_nat (tenths_mb n mod 10)
   \<and> 2 * 1048576 * tenths_mb n \<le> 20 * n + 1048576
   \<and> 20 * n \<le> 2 * 1048576 * tenths_mb n + 1048576"
proof (intro conjI impI)
  assume b: "create_deployment_zip deflate cwd = Inr (cwd', out)"
  from create_deployment_zip_Inr [OF b]
  show "out = map (\<lambda>(arcname, c). ''Added: '' @ arcname) (deployment_entries cwd) @
            summary_lines (length (deflate (deployment_entries cwd)))"
    by (rule conjunct2)
  from b show "map_of cwd' zip_path = Some (File (deflate (deployment_entries cwd)))"
    by (rule create_deployment_zip_archive)
next
  assume a: "create_aws_zip deflate cwd = Inr (cwd', out)"
  from create_aws_zip_Inr [OF a] obtain base st where
    z: "map_of base aws_zip = None"
    and c': "cwd' = base @ [(aws_zip, File (deflate (aws_entries (base @ [(aws_staging, Dir st)]))))]"
    and o: "out = aws_lines (length (deflate (aws_entries (base @ [(aws_staging, Dir st)]))))"
    by blast
  have "map_of cwd' aws_zip = Some (File (deflate (aws_entries (base @ [(aws_staging, Dir st)]))))"
    using z by (simp add: c' map_of_append map_add_def)
  with o show "\<exists>entries. map_of cwd' aws_zip = Some (File (deflate entries))
           \<and> out = aws_lines (length (deflate entries))"
    by blast
next
  show "summary_lines n ! 1 = emoji_package @ '' Size: '' @ fmt_mb n @ '' MB''"
    by (simp add: summary_lines_def)
  show "aws_lines n ! 2 = emoji_package @ '' Size: '' @ fmt_mb n @ '' MB''"
    by (simp add: aws_lines_def)
  show "fmt_mb n = show_nat (tenths_mb n div 10) @ ''.'' @ show_nat (tenths_mb n mod 10)"
    by (simp add: fmt_mb_def Let_def)
  show "2 * 1048576 * tenths_mb n \<le> 20 * n + 1048576"
    using tenths_mb_nearest [of n] by (rule conjunct1)
  show "20 * n \<le> 2 * 1048576 * tenths_mb n + 1048576"
    using tenths_mb_nearest [of n] by (rule conjunct2)
qed

theorem builders_output_witness:
  "create_deployment_zip name_list [(source_dir, log_tree)] =
     Inr ([(source_dir, log_tree), (zip_path, File ''cache.tmp;logs/server.log;'')],
          [''Added: cache.tmp'', ''Added: logs/server.log''] @ summary_lines 26)
   \<and> [''Added: cache.tmp'', ''Added: logs/server.log''] @ summary_lines 26 =
       map (\<lambda>(arcname, c). ''Added: '' @ arcname) (deployment_entries [(source_dir, log_tree)]) @
       summary_lines (length (name_list (deployment_entries [(source_dir, log_tree)])))
   \<and> create_aws_zip name_list [] = Inr ([(aws_zip, File ''Procfile;'')], aws_lines 9)
   \<and> (\<exists>entries. map_of [(aws_zip, File ''Procfile;'')] aws_zip = Some (File (name_list entries))
        \<and> aws_lines 9 = aws_lines (length (name_list entries)))
   \<and> summary_lines 26 ! 1 = emoji_package @ '' Size: 0.0 MB''
   \<and> aws_lines 9 ! 2 = emoji_package @ '' Size: 0.0 MB''"
proof -
  note b = builders_output [of name_list "[(source_dir, log_tree)]"
      "[(source_dir, log_tree), (zip_path, File ''cache.tmp;logs/server.log;'')]"
      "[''Added: cache.tmp'', ''Added: logs/server.log''] @ summary_lines 26" 26]
  note a = builders_output [of name_list "[]" "[(aws_zip, File ''Procfile;'')]" "aws_lines 9" 9]
  have c2: "[''Added: cache.tmp'', ''Added: logs/server.log''] @ summary_lines 26 =
       map (\<lambda>(arcname, c). ''Added: '' @ arcname) (deployment_entries [(source_dir, log_tree)]) @
       summary_lines (length (name_list (deployment_entries [(source_dir, log_tree)])))"
    using b [THEN conjunct1, rule_format, OF log_run] by (rule conjunct1)
  have c4: "\<exists>entries. map_of [(aws_zip, File ''Procfile;'')] aws_zip = Some (File (name_list entries))
        \<and> aws_lines 9 = aws_lines (length (name_list entries))"
    using a [THEN conjunct2, THEN conjunct1, rule_format, OF empty_run] .
  have c5: "summary_lines 26 ! 1 = emoji_package @ '' Size: 0.0 MB''"
    using b [THEN conjunct2, THEN conjunct2, THEN conjunct1] by (simp add: fmt_mb_small)
  have c6: "aws_lines 9 ! 2 = emoji_package @ '' Size: 0.0 MB''"
    using a [THEN conjunct2, THEN conjunct2, THEN conjunct2, THEN conjunct1]
    by (simp add: fmt_mb_small)
  show ?thesis
    by (intro conjI log_run c2 empty_run c4 c5 c6)
qed

section \<open>Names that end in .log and .tmp\<close>

text \<open>
  C9, as stated: a file whose name merely ends in \<^verbatim>\<open>.log\<close> or \<^verbatim>\<open>.tmp\<close> is not
  excluded and is included in the archive. The first half holds; the second fails when a
  directory has the name of the archive, for then the run of Builder B raises at
  \<^verbatim>\<open>unlink\<close> and no archive holds the file.
\<close>

theorem log_suffix_counterexample:
  "map_of [(source_dir, log_tree), (zip_path, Dir [])] source_dir = Some log_tree
   \<and> valid_tree log_tree
   \<and> ([''logs'', ''server.log''], ''l'') \<in> set (files_of log_tree)
   \<and> last [''logs'', ''server.log''] = ''server'' @ ''.log''
   \<and> list_all (\<lambda>part. \<not> (\<exists>pattern \<in> set exclude_patterns. sublist pattern part) \<and>
          \<not> startswith part ''.'') [''logs'', ''server.log'']
   \<and> \<not> should_exclude (slash_join (source_dir # [''logs'', ''server.log'']))
   \<and> create_deployment_zip name_list [(source_dir, log_tree), (zip_path, Dir [])]
       = Inl IsADirectoryError"
proof (intro conjI)
  show "map_of [(source_dir, log_tree), (zip_path, Dir [])] source_dir = Some log_tree"
    by simp
  show "valid_tree log_tree"
    by (simp add: log_tree_def valid_name_def sep_def)
  show "([''logs'', ''server.log''], ''l'') \<in> set (files_of log_tree)"
    by (simp add: log_tree_def)
  show "last [''logs'', ''server.log''] = ''server'' @ ''.log''"
    by simp
  show "list_all (\<lambda>part. \<not> (\<exists>pattern \<in> set exclude_patterns. sublist pattern part) \<and>
          \<not> startswith part ''.'') [''logs'', ''server.log'']"
    by (simp add: exclude_patterns_def startswith_def str_in_iff_sublist [symmetric])
  show "\<not> should_exclude (slash_join (source_dir # [''logs'', ''server.log'']))"
    by (simp add: should_exclude_def source_dir_def parts_def path_root_def sep_def
        part_excluded_def exclude_patterns_def startswith_def)
  have "map_of [(source_dir, log_tree), (zip_path, Dir [])] zip_path = Some (Dir [])"
    by (simp add: source_dir_def zip_path_def)
  then show "create_deployment_zip name_list [(source_dir, log_tree), (zip_path, Dir [])]
       = Inl IsADirectoryError"
    by (rule blocked_run)
qed

text \<open>
  C9, amended. The markers \<^verbatim>\<open>*.log\<close> and \<^verbatim>\<open>*.tmp\<close> are texts to be found in a segment,
  not wildcards. Take a file of the staging directory, the names in it being ASCII,
  whose name merely ends in \<^verbatim>\<open>.log\<close> or \<^verbatim>\<open>.tmp\<close>, no marker occurring literally in
  a segment of its path and no segment starting with a dot but the two allowed ones. It
  is not excluded, and when no directory has the name of the archive the run of Builder
  B ends and leaves an archive that has its entry. The name \<^verbatim>\<open>server.log\<close> is such a
  one: it has no asterisk.
\<close>

theorem log_suffix_not_excluded:
  assumes "map_of cwd source_dir = Some tree"
    and "valid_tree tree"
    and "ascii_tree tree"
    and "(segs, c) \<in> set (files_of tree)"
    and "last segs = stem @ ''.log'' \<or> last segs = stem @ ''.tmp''"
    and "\<forall>part \<in> set segs.
           \<not> (\<exists>pattern \<in> set exclude_patterns. sublist pattern part) \<and>
           (startswith part ''.'' \<longrightarrow> part \<in> set allowed_dot_names)"
    and "\<forall>es. map_of cwd zip_path \<noteq> Some (Dir es)"
  shows "\<not> should_exclude (slash_join (source_dir # segs))
       \<and> (\<exists>cwd' out entries.
             create_deployment_zip deflate cwd = Inr (cwd', out)
             \<and> map_of cwd' zip_path = Some (File (deflate entries))
             \<and> (slash_join segs, c) \<in> set entries)"
proof -
  have v: "segs \<noteq> []" "\<forall>s \<in> set segs. valid_name s"
    using files_of_valid [OF assms(2,4)] by simp_all
  have n: "\<not> exclude_loop segs"
    using assms(6) unfolding exclude_loop_iff part_excluded_iff startswith_def by blast
  then have a: "\<not> should_exclude (slash_join (source_dir # segs))"
    using should_exclude_file [OF v] by (simp add: source_dir_clean)
  have "(segs, c) \<in> set (filter (\<lambda>(segs, c). \<not> exclude_loop (source_dir # segs)) (files_of tree))"
    using assms(4) n by (simp add: source_dir_clean)
  then have "(\<lambda>(segs, c). (slash_join segs, c)) (segs, c) \<in> set (deployment_entries cwd)"
    unfolding deployment_entries_eq [OF assms(1,2)] set_map by (rule imageI)
  then have e: "(slash_join segs, c) \<in> set (deployment_entries cwd)"
    by simp
  from create_deployment_zip_run [OF assms(7), of deflate] obtain cwd' out
    where r: "create_deployment_zip deflate cwd = Inr (cwd', out)"
      and m: "map_of cwd' zip_path = Some (File (deflate (deployment_entries cwd)))"
    by blast
  have "\<exists>cwd' out entries.
             create_deployment_zip deflate cwd = Inr (cwd', out)
             \<and> map_of cwd' zip_path = Some (File (deflate entries))
             \<and> (slash_join segs, c) \<in> set entries"
    by (intro exI conjI) (rule r, rule m, rule e)
  with a show ?thesis
    by (rule conjI)
qed

theorem log_suffix_not_excluded_witness:
  "map_of [(source_dir, log_tree)] source_dir = Some log_tree
   \<and> valid_tree log_tree
   \<and> ascii_tree log_tree
   \<and> ([''logs'', ''server.log''], ''l'') \<in> set (files_of log_tree)
   \<and> last [''logs'', ''server.log''] = ''server'' @ ''.log''
   \<and> list_all (\<lambda>part. \<not> (\<exists>pattern \<in> set exclude_patterns. sublist pattern part) \<and>
          \<not> startswith part ''.'') [''logs'', ''server.log'']
   \<and> map_of [(source_dir, log_tree)] zip_path = None
   \<and> \<not> should_exclude (slash_join (source_dir # [''logs'', ''server.log'']))
   \<and> create_deployment_zip name_list [(source_dir, log_tree)] =
       Inr ([(source_dir, log_tree), (zip_path, File ''cache.tmp;logs/server.log;'')],
            [''Added: cache.tmp'', ''Added: logs/server.log''] @ summary_lines 26)
   \<and> (\<exists>cwd' out entries.
         create_deployment_zip name_list [(source_dir, log_tree)] = Inr (cwd', out)
         \<and> map_of cwd' zip_path = Some (File (name_list entries))
         \<and> (''logs/server.log'', ''l'') \<in> set entries)"
proof -
  have a: "map_of [(source_dir, log_tree)] source_dir = Some log_tree"
    by simp
  have b: "valid_tree log_tree"
    by (simp add: log_tree_def valid_name_def sep_def)
  have b': "ascii_tree log_tree"
    by (simp add: log_tree_def ascii_name_def)
  have c: "([''logs'', ''server.log''], ''l'') \<in> set (files_of log_tree)"
    by (simp add: log_tree_def)
  have d: "last [''logs'', ''server.log''] = ''server'' @ ''.log''"
    by simp
  have e: "list_all (\<lambda>part. \<not> (\<exists>pattern \<in> set exclude_patterns. sublist pattern part) \<and>
          \<not> startswith part ''.'') [''logs'', ''server.log'']"
    by (simp add: exclude_patterns_def startswith_def str_in_iff_sublist [symmetric])
  have h: "\<forall>part \<in> set [''logs'', ''server.log''].
           \<not> (\<exists>pattern \<in> set exclude_patterns. sublist pattern part) \<and>
           (startswith part ''.'' \<longrightarrow> part \<in> set allowed_dot_names)"
    using e unfolding list_all_iff by blast
  have z: "map_of [(source_dir, log_tree)] zip_path = None"
    by (simp add: source_dir_def zip_path_def)
  have z': "\<forall>es. map_of [(source_dir, log_tree)] zip_path \<noteq> Some (Dir es)"
    by (simp only: z) simp
  note t = log_suffix_not_excluded [OF a b b' c disjI1 [OF d] h z', of name_list]
  have f: "slash_join [''logs'', ''server.log''] = ''logs/server.log''"
    by simp
  have t1: "\<not> should_exclude (slash_join (source_dir # [''logs'', ''server.log'']))"
    using t by (rule conjunct1)
  have t2: "\<exists>cwd' out entries.
         create_deployment_zip name_list [(source_dir, log_tree)] = Inr (cwd', out)
         \<and> map_of cwd' zip_path = Some (File (name_list entries))
         \<and> (''logs/server.log'', ''l'') \<in> set entries"
    using t [THEN conjunct2] unfolding f .
  show ?thesis
    by (intro conjI a b b' c d e z t1 log_run t2)
qed

end
